theory Spec2Isabelle
  imports Main
begin

section \<open>Entries, links and the store\<close>

text \<open>
  A shallow embedding of tup's command-line front end (\<^verbatim>\<open>main\<close> and the secondary
  commands defined beside it). The front end talks to the node/link database, to the
  graph library and to the operating system; those parts are declared in headers only,
  so they are modelled here from the specification (each such definition says so) or
  taken from a \<open>world\<close> value that fixes what the outside answers in one run.
\<close>

type_synonym tupid_t = int

text \<open>
  Modelled from the spec: \<^verbatim>\<open>db_types.h\<close> is absent, so the node kinds are those of
  section 3.1 (file, directory, command, generated file, generated directory, ghost,
  variable, group) under the names the source uses for them.
\<close>

datatype TUP_NODE_TYPE =
    TUP_NODE_FILE
  | TUP_NODE_CMD
  | TUP_NODE_DIR
  | TUP_NODE_VAR
  | TUP_NODE_GENERATED
  | TUP_NODE_GHOST
  | TUP_NODE_GROUP
  | TUP_NODE_GENERATED_DIR

text \<open>Modelled from the spec: the three link styles of section 3.2.\<close>

datatype link_style = TUP_LINK_NORMAL | TUP_LINK_STICKY | TUP_LINK_GROUP

text \<open>
  \<^verbatim>\<open>struct tup_entry\<close>, with the fields the front end reads: \<^verbatim>\<open>tnode.tupid\<close>,
  \<^verbatim>\<open>dt\<close>, \<^verbatim>\<open>name.s\<close> and \<^verbatim>\<open>type\<close>.
\<close>

record tup_entry =
  tupid :: tupid_t
  dt :: tupid_t
  name :: string
  type :: TUP_NODE_TYPE

text \<open>
  Modelled from the spec: the graph library (\<^verbatim>\<open>graph.h\<close>) is absent. A node of the
  graph carries its entry and the \<^verbatim>\<open>expanded\<close> mark; the graph indexes its nodes by
  id (\<open>node_root\<close>, what \<^verbatim>\<open>find_node\<close> searches) and keeps each on one of two
  queues, \<open>plist\<close> (pending) and \<open>node_list\<close> (section 4.F, step 1). A pointer to a
  node is the node's id. An edge is the pair of its end points and its style.
\<close>

record node =
  tent :: tup_entry
  expanded :: bool

record graph =
  node_root :: "(tupid_t \<times> node) list"
  node_list :: "tupid_t list"
  plist :: "tupid_t list"
  cur :: "tupid_t option"
  edges :: "(tupid_t \<times> tupid_t \<times> link_style) list"

text \<open>What there is at a place of the file system; a symbolic link holds its target.\<close>

datatype fs_obj = Fs_dir | Fs_file | Fs_symlink string

text \<open>
  What one run of the program finds outside itself. The tables are the persistent
  store (node table, link table, the create and modify flag tables, in row order);
  \<open>ext\<close> gives the value an external function returns on string arguments
  (negative for a failure), \<open>updater\<close> the value of \<^verbatim>\<open>updater(argc, argv, phase)\<close>,
  \<open>prune_graph\<close> the graph \<^verbatim>\<open>prune_graph\<close> leaves (\<open>None\<close> when it fails), and
  \<open>graph_root\<close> the node \<^verbatim>\<open>cur\<close> designates when \<^verbatim>\<open>create_graph\<close> returns, and
  \<open>by_link_sticky\<close> whether \<^verbatim>\<open>tup_db_select_node_by_link\<close> yields the targets of sticky
  links beside those of normal links. \<open>fsys\<close> is the file system when the run starts and
  \<open>tup_top\<close> the place of the top of the tup hierarchy in it, both by the names on the
  way from the root.
\<close>

record world =
  node_table :: "tup_entry list"
  link_table :: "(tupid_t \<times> tupid_t \<times> link_style) list"
  create_list :: "tupid_t list"
  modify_list :: "tupid_t list"
  env_dt :: tupid_t
  option_flag :: "string \<Rightarrow> bool"
  sub_dir_dt :: tupid_t
  sub_dir :: string
  find_dir_tupid :: "string \<Rightarrow> tupid_t"
  get_tent_dt :: "tupid_t \<Rightarrow> string \<Rightarrow> tup_entry option"
  graph_root :: "tupid_t option"
  by_link_sticky :: bool
  tup_top :: "string list"
  fsys :: "(string list \<times> fs_obj) list"
  PATH_MAX :: nat
  monitor_pid :: int
  vardict :: bool
  tup_version :: string
  TUP_SERVER :: string
  ext :: "string \<Rightarrow> string list \<Rightarrow> int"
  updater :: "string list \<Rightarrow> int \<Rightarrow> int"
  prune_graph :: "graph \<Rightarrow> string list \<Rightarrow> graph option"

text \<open>What a run does that can be seen from outside, in order.\<close>

datatype event =
    Stdout string
  | Stderr string
  | Print_tup_entry tup_entry
  | Call string "string list"
  | Call_updater "string list" int
  | Perror string
  | Dump_graph graph bool bool

definition TUP_CONFIG :: string where
  "TUP_CONFIG = ''tup.config''"

definition nl :: string where
  "nl = [CHR 0x0A]"

definition sq :: string where
  "sq = [CHR 0x27]"

definition esc :: string where
  "esc = [CHR 0x1B]"

subsection \<open>The C library: \<^verbatim>\<open>strtol\<close> and decimal output\<close>

definition isspace :: "char \<Rightarrow> bool" where
  "isspace c = (c \<in> set [CHR 0x20, CHR 0x09, CHR 0x0A, CHR 0x0B, CHR 0x0C, CHR 0x0D])"

definition isdigit :: "char \<Rightarrow> bool" where
  "isdigit c = (c \<in> set ''0123456789'')"

definition digit_val :: "char \<Rightarrow> int" where
  "digit_val c = int (of_char c) - 48"

definition LONG_MAX :: int where
  "LONG_MAX = 2 ^ 63 - 1"

definition LONG_MIN :: int where
  "LONG_MIN = - (2 ^ 63)"

text \<open>
  \<^verbatim>\<open>strtol(s, NULL, 10)\<close> on a 64-bit \<^verbatim>\<open>long\<close>: leading white space, an optional
  sign, the longest run of digits (none gives 0), clamped on overflow.
\<close>

definition strtol :: "string \<Rightarrow> int" where
  "strtol s =
     (let s1 = dropWhile isspace s;
          neg = (s1 \<noteq> [] \<and> hd s1 = CHR ''-'');
          s2 = (if s1 \<noteq> [] \<and> (hd s1 = CHR ''-'' \<or> hd s1 = CHR ''+'') then tl s1 else s1);
          v = foldl (\<lambda>a c. a * 10 + digit_val c) 0 (takeWhile isdigit s2)
      in if neg then max LONG_MIN (- v) else min LONG_MAX v)"

function string_of_nat :: "nat \<Rightarrow> string" where
  "string_of_nat n =
     (if n < 10 then [''0123456789'' ! n]
      else string_of_nat (n div 10) @ [''0123456789'' ! (n mod 10)])"
  by pat_completeness auto
termination
  by (relation "measure id") auto

declare string_of_nat.simps [simp del]

text \<open>The text \<^verbatim>\<open>printf\<close> writes for \<^verbatim>\<open>%i\<close> and \<^verbatim>\<open>%lli\<close>.\<close>

definition string_of_int :: "int \<Rightarrow> string" where
  "string_of_int i = (if i < 0 then CHR ''-'' # string_of_nat (nat (- i)) else string_of_nat (nat i))"

subsection \<open>The database layer\<close>

text \<open>
  Modelled from the spec: the store's sources are absent. \<open>get_or_load\<close> of section 4.A:
  the entry of an id, \<open>None\<close> when the id is unknown (\<^verbatim>\<open>tup_entry_add\<close> then fails).
\<close>

definition tup_entry_add :: "world \<Rightarrow> tupid_t \<Rightarrow> tup_entry option" where
  "tup_entry_add w i = find (\<lambda>t. tupid t = i) (node_table w)"

text \<open>
  Modelled from the spec: \<open>lookup(parent, name)\<close> of section 4.A, the child of a
  directory with exactly this name, \<open>None\<close> when there is none.
\<close>

definition tup_db_select_tent :: "world \<Rightarrow> tup_entry \<Rightarrow> string \<Rightarrow> tup_entry option" where
  "tup_db_select_tent w dtent nm = find (\<lambda>t. dt t = tupid dtent \<and> name t = nm) (node_table w)"

text \<open>Modelled from the spec: \<open>link_exists(a, b, style)\<close> of section 4.D, as 0 or 1.\<close>

definition tup_db_link_exists :: "world \<Rightarrow> tupid_t \<Rightarrow> tupid_t \<Rightarrow> link_style \<Rightarrow> int" where
  "tup_db_link_exists w a b style = (if (a, b, style) \<in> set (link_table w) then 1 else 0)"

text \<open>An external call that reports failure in this run.\<close>

definition fails :: "world \<Rightarrow> string \<Rightarrow> bool" where
  "fails w f = (ext w f [] < 0)"

text \<open>
  Modelled from the spec: a \<^verbatim>\<open>struct tent_entries\<close> is a red-black tree of entries
  keyed by id, so it holds each id once and \<^verbatim>\<open>RB_FOREACH\<close> walks it by ascending id.
\<close>

definition tent_entries :: "world \<Rightarrow> tupid_t list \<Rightarrow> tup_entry list option" where
  "tent_entries w ids = those (map (tup_entry_add w) (sort (remdups ids)))"

text \<open>
  Modelled from the spec: the normal inputs of a command are the sources of the
  normal links into it (section 4.G, step 3); \<open>None\<close> is a negative return.
\<close>

definition tup_db_get_inputs_normal :: "world \<Rightarrow> tupid_t \<Rightarrow> tup_entry list option" where
  "tup_db_get_inputs_normal w cmdid =
     (if fails w ''tup_db_get_inputs'' then None
      else tent_entries w [a. (a, b, s) \<leftarrow> link_table w, b = cmdid, s = TUP_LINK_NORMAL])"

section \<open>The inputs command\<close>

text \<open>The body of the \<^verbatim>\<open>RB_FOREACH\<close> loop of \<^verbatim>\<open>inputs\<close>.\<close>

definition inputs_print :: "tup_entry list \<Rightarrow> event list" where
  "inputs_print ts =
     concat (map (\<lambda>t. if type t \<noteq> TUP_NODE_GHOST then [Print_tup_entry t, Stdout nl] else []) ts)"

text \<open>
  The \<^verbatim>\<open>for\<close> loop of \<^verbatim>\<open>inputs\<close>: \<open>False\<close> once an argument makes it return -1,
  with what was written until then.
\<close>

fun inputs_loop :: "world \<Rightarrow> string list \<Rightarrow> event list \<Rightarrow> bool \<times> event list" where
  "inputs_loop w [] evs = (True, evs)"
| "inputs_loop w (a # as) evs =
     (let cmdid = strtol a in
      if cmdid \<le> 0 then
        (False, evs @ [Stderr (''tup error: '' @ a @ '' is not a valid command ID.'' @ nl)])
      else case tup_db_get_inputs_normal w cmdid of
        None \<Rightarrow> (False, evs)
      | Some ts \<Rightarrow> inputs_loop w as (evs @ inputs_print ts))"

definition inputs :: "world \<Rightarrow> string list \<Rightarrow> int \<times> event list" where
  "inputs w argv =
     (if fails w ''tup_db_begin'' then (- 1, [])
      else case inputs_loop w argv [] of
        (False, evs) \<Rightarrow> (- 1, evs)
      | (True, evs) \<Rightarrow> if fails w ''tup_db_commit'' then (- 1, evs) else (0, evs))"


section \<open>The link predicates normal_exists and sticky_exists\<close>

definition dir_missing :: "string \<Rightarrow> event" where
  \<open>dir_missing d = Stderr (esc @ ''[31mError: dir '' @ sq @ d @ sq @ '' doesn't exist.'' @ esc @ ''[0m'' @ nl)\<close>

definition node_missing :: "string \<Rightarrow> event" where
  \<open>node_missing n = Stderr (esc @ ''[31mError: node '' @ sq @ n @ sq @ '' doesn't exist.'' @ esc @ ''[0m'' @ nl)\<close>

text \<open>
  \<^verbatim>\<open>link_exists(cmd, argc, argv)\<close>. With no argument at all \<^verbatim>\<open>argv[0]\<close> is the null
  pointer that ends the vector, which \<^verbatim>\<open>fprintf\<close> writes as \<^verbatim>\<open>(null)\<close>.
\<close>

definition link_exists :: "world \<Rightarrow> string \<Rightarrow> string list \<Rightarrow> int \<times> event list" where
  "link_exists w cmd argv =
     (if fails w ''tup_db_begin'' then (- 1, [])
      else case argv of
        [d1, n1, d2, n2] \<Rightarrow>
          if cmd \<noteq> ''normal_exists'' \<and> cmd \<noteq> ''sticky_exists'' then
            (- 1, [Stderr (esc @ ''[31mError: link_exists called with unknown style: '' @ cmd @ nl)])
          else
            let style = (if cmd = ''normal_exists'' then TUP_LINK_NORMAL else TUP_LINK_STICKY);
                dta = find_dir_tupid w d1
            in if dta < 0 then (- 1, [dir_missing d1])
            else case tup_entry_add w dta of
              None \<Rightarrow> (- 1, [])
            | Some dtenta \<Rightarrow>
                if fails w ''tup_db_select_tent'' then (- 1, [])
                else case tup_db_select_tent w dtenta n1 of
                  None \<Rightarrow> (- 1, [node_missing n1])
                | Some tenta \<Rightarrow>
                    let dtb = find_dir_tupid w d2
                    in if dtb < 0 then (- 1, [dir_missing d2])
                    else case tup_entry_add w dtb of
                      None \<Rightarrow> (- 1, [])
                    | Some dtentb \<Rightarrow>
                        case tup_db_select_tent w dtentb n2 of
                          None \<Rightarrow> (- 1, [node_missing n2])
                        | Some tentb \<Rightarrow>
                            if fails w ''tup_db_link_exists'' then (- 1, [])
                            else if fails w ''tup_db_commit'' then (- 1, [])
                            else (tup_db_link_exists w (tupid tenta) (tupid tentb) style, [])
      | _ \<Rightarrow>
          (- 1, [Stderr (''tup error: '' @ (case argv of [] \<Rightarrow> ''(null)'' | a # _ \<Rightarrow> a) @
                   '' requires two dir/name pairs.'' @ nl)]))"

section \<open>The variant command\<close>

subsection \<open>The file system\<close>

text \<open>
  The file system lists each object that exists, directory, file or symbolic link,
  under the names on the way to it from the root, without a symbolic link on the way.
  The root itself is a directory, and so is a place that \<^verbatim>\<open>..\<close> leads to.
\<close>

type_synonym fs = "(string list \<times> fs_obj) list"

text \<open>The names between the slashes of a path.\<close>

fun split_path :: "string \<Rightarrow> string list" where
  "split_path [] = [[]]"
| "split_path (c # cs) =
     (if c = CHR ''/'' then [] # split_path cs
      else (case split_path cs of x # xs \<Rightarrow> (c # x) # xs | [] \<Rightarrow> [[c]]))"

text \<open>The number of symbolic links the system follows in one path before it gives up.\<close>

definition MAXSYMLINKS :: nat where
  "MAXSYMLINKS = 40"

text \<open>
  The walk of the system along the names of a path, from the directory \<open>at\<close>: an empty
  name and \<^verbatim>\<open>.\<close> stay, \<^verbatim>\<open>..\<close> goes to the parent, a directory is entered, a symbolic
  link is replaced by the names of its target, from the root when the target is
  absolute, and a file can only be the end of the path. \<open>None\<close> when a name does not
  exist, when a file stands in the way, or when \<open>n\<close> links were followed and another
  one comes.
\<close>

function namei :: "fs \<Rightarrow> nat \<Rightarrow> string list \<Rightarrow> string list \<Rightarrow> string list option" where
  "namei f n at [] = Some at"
| "namei f n at (c # cs) =
     (if c = [] \<or> c = ''.'' then namei f n at cs
      else if c = ''..'' then namei f n (butlast at) cs
      else case map_of f (at @ [c]) of
        None \<Rightarrow> None
      | Some Fs_dir \<Rightarrow> namei f n (at @ [c]) cs
      | Some Fs_file \<Rightarrow> if cs = [] then Some (at @ [c]) else None
      | Some (Fs_symlink t) \<Rightarrow>
          (case n of
             0 \<Rightarrow> None
           | Suc m \<Rightarrow>
               if t = [] then None
               else namei f m (if hd t = CHR ''/'' then [] else at) (split_path t @ cs)))"
  by pat_completeness auto
termination
  by (relation "measures [\<lambda>(f, n, at, cs). n, \<lambda>(f, n, at, cs). length cs]") auto

text \<open>Where a path leads from the directory \<open>cwd\<close>, links followed to the end.\<close>

definition lookup_path :: "fs \<Rightarrow> string list \<Rightarrow> string \<Rightarrow> string list option" where
  "lookup_path f cwd p =
     (if p = [] then None
      else namei f MAXSYMLINKS (if hd p = CHR ''/'' then [] else cwd) (split_path p))"

definition is_dir :: "fs \<Rightarrow> string list \<Rightarrow> bool" where
  "is_dir f d = (case map_of f d of Some Fs_file \<Rightarrow> False | Some (Fs_symlink t) \<Rightarrow> False | _ \<Rightarrow> True)"

text \<open>The directory that a path leads to from \<open>cwd\<close>: where \<^verbatim>\<open>chdir\<close> goes.\<close>

definition dir_at :: "fs \<Rightarrow> string list \<Rightarrow> string \<Rightarrow> string list option" where
  "dir_at f cwd p =
     (case lookup_path f cwd p of
        None \<Rightarrow> None
      | Some d \<Rightarrow> if is_dir f d then Some d else None)"

text \<open>The names in a directory.\<close>

definition dir_entries :: "fs \<Rightarrow> string list \<Rightarrow> string list" where
  "dir_entries f d = [last k. (k, _) \<leftarrow> f, k \<noteq> [], butlast k = d]"

subsection \<open>The command\<close>

definition fchdir_failed :: "event list" where
  "fchdir_failed =
     [Perror ''fchdir'',
      Stderr (''tup error: Unable to fchdir to the top of the tup hierarchy.'' @ nl)]"

text \<open>
  \<^verbatim>\<open>dir_empty\<close>, called in the top directory: 1 when the directory that \<^verbatim>\<open>chdir\<close> enters
  holds nothing but names that start with a dot (\<^verbatim>\<open>flist_foreach\<close> also yields \<^verbatim>\<open>.\<close>
  and \<^verbatim>\<open>..\<close>, which the loop skips like them), 0 when it holds another name, -1 when
  it cannot be entered or left. \<^verbatim>\<open>chdir\<close> follows a symbolic link.
\<close>

definition dir_empty :: "world \<Rightarrow> fs \<Rightarrow> string \<Rightarrow> int \<times> event list" where
  "dir_empty w f dirname =
     (case (if fails w ''chdir'' then None else dir_at f (tup_top w) dirname) of
        None \<Rightarrow>
          (- 1, [Perror dirname, Stderr (''tup error: Unable to chdir to variant directory.'' @ nl)])
      | Some d \<Rightarrow>
          if \<exists>e \<in> set (dir_entries f d). e = [] \<or> hd e \<noteq> CHR ''.'' then (0, [])
          else if ext w ''fchdir'' [dirname] < 0 then (- 1, fchdir_failed)
          else (1, []))"

text \<open>
  \<^verbatim>\<open>create_variant\<close>, in the build that is not for Windows (the branch of the
  \<^verbatim>\<open>#ifdef _WIN32\<close> that calls \<^verbatim>\<open>symlink\<close>). \<^verbatim>\<open>snprintf\<close> cuts the directory name to
  the size of its buffer. \<^verbatim>\<open>mkdir\<close> fails with \<^verbatim>\<open>EEXIST\<close> when there is anything under
  the name in the top directory, a symbolic link included; \<^verbatim>\<open>symlink\<close> follows the
  links on the way to the directory of the new link and fails when the name of the new
  link exists there.
\<close>

definition variant_dirname :: "world \<Rightarrow> string \<Rightarrow> string" where
  "variant_dirname w config_path =
     (let filename = (if CHR ''/'' \<in> set config_path
                      then rev (takeWhile (\<lambda>c. c \<noteq> CHR ''/'') (rev config_path))
                      else config_path);
          stem = (if CHR ''.'' \<in> set filename
                  then takeWhile (\<lambda>c. c \<noteq> CHR ''.'') filename
                  else filename)
      in take (PATH_MAX w - 1) (''build-'' @ stem))"

definition variant_linkpath :: "world \<Rightarrow> string \<Rightarrow> string" where
  "variant_linkpath w config_path =
     (if length (sub_dir w) \<noteq> 0 then ''../'' @ sub_dir w @ ''/'' @ config_path
      else ''../'' @ config_path)"

definition create_variant :: "world \<Rightarrow> fs \<Rightarrow> string \<Rightarrow> int \<times> event list \<times> fs" where
  "create_variant w f config_path =
     (let dirname = variant_dirname w config_path in
      if fails w ''fchdir'' then (- 1, fchdir_failed, f)
      else
        let made = (if map_of f (tup_top w @ [dirname]) \<noteq> None then
                      (case dir_empty w f dirname of
                         (rc, evs) \<Rightarrow>
                           if rc < 0 then Inl evs
                           else if rc = 0 then
                             Inl [Stderr (''tup error: Variant directory '' @ sq @ dirname @ sq @
                                    '' already exists and is not empty.'' @ nl)]
                           else Inr f)
                    else if fails w ''mkdir'' then
                      Inl [Perror dirname,
                           Stderr (''tup error: Unable to create variant directory '' @ sq @ dirname @ sq @
                             '' at the top of the tup hierarchy.'' @ nl)]
                    else Inr (f @ [(tup_top w @ [dirname], Fs_dir)]))
        in case made of
          Inl evs \<Rightarrow> (- 1, evs, f)
        | Inr f1 \<Rightarrow>
            let linkpath = variant_linkpath w config_path;
                linkdest = dirname @ ''/tup.config'';
                symlink_failed =
                  [Perror linkdest,
                   Stderr (''tup error: Unable to create tup.config symlink for config file: '' @
                     config_path @ nl)]
            in if length linkpath \<ge> PATH_MAX w then
                 (- 1, [Stderr (''tup error: linkpath is too small to fit the tup.config symlink path.'' @ nl)], f1)
               else if length linkdest \<ge> PATH_MAX w then
                 (- 1, [Stderr (''tup error: linkdest is too small to fit the tup.config symlink destination.'' @ nl)], f1)
               else case dir_at f1 (tup_top w) dirname of
                 None \<Rightarrow> (- 1, symlink_failed, f1)
               | Some d \<Rightarrow>
                   if map_of f1 (d @ [''tup.config'']) \<noteq> None \<or> fails w ''symlink'' then
                     (- 1, symlink_failed, f1)
                   else
                     (0, [Stdout (''tup: Added variant '' @ sq @ dirname @ sq @ '' using config file '' @ sq @
                            config_path @ sq @ nl)],
                      f1 @ [(d @ [''tup.config''], Fs_symlink linkpath)]))"

text \<open>The \<^verbatim>\<open>for\<close> loop of \<^verbatim>\<open>variant\<close>.\<close>

fun variant_loop :: "world \<Rightarrow> fs \<Rightarrow> string list \<Rightarrow> event list \<Rightarrow> bool \<times> event list \<times> fs" where
  "variant_loop w f [] evs = (True, evs, f)"
| "variant_loop w f (a # as) evs =
     (case create_variant w f a of
        (rc, evs1, f1) \<Rightarrow>
          if rc < 0 then (False, evs @ evs1, f1) else variant_loop w f1 as (evs @ evs1))"

definition variant :: "world \<Rightarrow> string list \<Rightarrow> int \<times> event list \<times> fs" where
  "variant w argv =
     (if length argv < 1 then
        (- 1, [Stderr (''Usage: variant foo.config [bar.config] [...]'' @ nl),
               Stderr (''This will create a build-foo directory with a tup.config symlink to foo.config'' @ nl)],
         fsys w)
      else if fails w ''tup_db_begin'' then (- 1, [], fsys w)
      else case variant_loop w (fsys w) argv [] of
        (False, evs, f) \<Rightarrow> (- 1, evs, f)
      | (True, evs, f) \<Rightarrow> if fails w ''tup_db_commit'' then (- 1, evs, f) else (0, evs, f))"

section \<open>The graph command\<close>

subsection \<open>The graph library\<close>

text \<open>
  Modelled from the spec: the operations of the absent graph library that
  \<^verbatim>\<open>graph\<close> and \<^verbatim>\<open>graph_cb\<close> call. The spec gives them no way to fail, so their
  negative returns are not taken. \<^verbatim>\<open>create_node\<close> leaves the new node unexpanded on
  \<open>node_list\<close>, from where the callers remove it.
\<close>

definition find_node :: "graph \<Rightarrow> tupid_t \<Rightarrow> node option" where
  "find_node g i = map_of (node_root g) i"

definition create_node :: "graph \<Rightarrow> tup_entry \<Rightarrow> graph" where
  "create_node g t =
     g\<lparr>node_root := node_root g @ [(tupid t, \<lparr>tent = t, expanded = False\<rparr>)],
       node_list := node_list g @ [tupid t]\<rparr>"

definition node_remove_list :: "tupid_t list \<Rightarrow> tupid_t \<Rightarrow> tupid_t list" where
  "node_remove_list l i = remove1 i l"

definition node_insert_head :: "tupid_t list \<Rightarrow> tupid_t \<Rightarrow> tupid_t list" where
  "node_insert_head l i = i # l"

definition create_edge :: "graph \<Rightarrow> tupid_t \<Rightarrow> tupid_t \<Rightarrow> link_style \<Rightarrow> graph" where
  "create_edge g a b style = g\<lparr>edges := edges g @ [(a, b, style)]\<rparr>"

text \<open>The assignment \<^verbatim>\<open>n->expanded = 1\<close>.\<close>

definition set_expanded :: "graph \<Rightarrow> tupid_t \<Rightarrow> graph" where
  "set_expanded g i =
     g\<lparr>node_root := map (\<lambda>(k, n). if k = i then (k, n\<lparr>expanded := True\<rparr>) else (k, n)) (node_root g)\<rparr>"

definition is_expanded :: "graph \<Rightarrow> tupid_t \<Rightarrow> bool" where
  "is_expanded g i = (case find_node g i of None \<Rightarrow> False | Some n \<Rightarrow> expanded n)"

text \<open>
  Modelled from the spec: \<^verbatim>\<open>create_graph\<close> starts from no node, no edge and two empty
  queues (section 4.F, step 1).
\<close>

definition create_graph :: "world \<Rightarrow> graph" where
  "create_graph w = \<lparr>node_root = [], node_list = [], plist = [], cur = graph_root w, edges = []\<rparr>"

text \<open>The vertex set and the edge set of a graph.\<close>

definition graph_V :: "graph \<Rightarrow> tup_entry set" where
  "graph_V g = (tent \<circ> snd) ` set (node_root g)"

definition graph_E :: "graph \<Rightarrow> (tupid_t \<times> tupid_t \<times> link_style) set" where
  "graph_E g = set (edges g)"

subsection \<open>The callback \<^verbatim>\<open>graph_cb\<close>\<close>

text \<open>The file-level switches \<^verbatim>\<open>show_dirs\<close>, \<^verbatim>\<open>show_ghosts\<close> and \<^verbatim>\<open>show_env\<close>, with the
  locals of \<^verbatim>\<open>graph\<close> that its argument loop sets.\<close>

record gopts =
  show_dirs :: bool
  show_ghosts :: bool
  show_env :: bool
  combine :: bool
  stickies :: bool
  pruned :: "nat option"
  default_graph :: bool

text \<open>The three early returns of \<^verbatim>\<open>graph_cb\<close>: the entry is left out of the graph.\<close>

definition graph_cb_skips :: "world \<Rightarrow> gopts \<Rightarrow> graph \<Rightarrow> tup_entry \<Rightarrow> bool" where
  "graph_cb_skips w opt g t =
     ((\<not> show_ghosts opt \<and> type t = TUP_NODE_GHOST)
      \<or> (\<not> show_env opt \<and> (tupid t = env_dt w \<or> dt t = env_dt w))
      \<or> (\<not> show_dirs opt \<and> cur g \<noteq> None \<and>
           (type t = TUP_NODE_DIR \<or> type t = TUP_NODE_GENERATED_DIR)))"

text \<open>The part of \<^verbatim>\<open>graph_cb\<close> from the label \<^verbatim>\<open>edge_create\<close> up to the edge.\<close>

definition enqueue :: "graph \<Rightarrow> tupid_t \<Rightarrow> graph" where
  "enqueue g i =
     (if \<not> is_expanded g i then
        (set_expanded g i)\<lparr>node_list := node_remove_list (node_list g) i,
                            plist := node_insert_head (plist g) i\<rparr>
      else g)"

definition graph_cb :: "world \<Rightarrow> gopts \<Rightarrow> graph \<Rightarrow> tup_entry \<Rightarrow> graph" where
  "graph_cb w opt g t =
     (if graph_cb_skips w opt g t then g
      else
        let g1 = (case find_node g (tupid t) of Some n \<Rightarrow> g | None \<Rightarrow> create_node g t);
            g2 = enqueue g1 (tupid t)
        in case cur g2 of
             Some c \<Rightarrow> create_edge g2 c (tupid t) TUP_LINK_NORMAL
           | None \<Rightarrow> g2)"

text \<open>
  Modelled from the spec: \<^verbatim>\<open>build_graph_group_cb\<close> belongs to the absent graph library.
  Section 4.F, step 2b: an edge is added from the group being expanded to the
  producing command, which becomes a node if it was none.
\<close>

definition build_graph_group_cb :: "graph \<Rightarrow> tup_entry \<Rightarrow> graph" where
  "build_graph_group_cb g t =
     (let g1 = (case find_node g (tupid t) of Some n \<Rightarrow> g | None \<Rightarrow> create_node g t)
      in case cur g1 of
           Some c \<Rightarrow> create_edge g1 c (tupid t) TUP_LINK_GROUP
         | None \<Rightarrow> g1)"

subsection \<open>The iterators of the store\<close>

text \<open>
  Modelled from the spec: the rows an iterator yields are entries of the node table,
  loaded by id; a row whose id is unknown, or a failure of the store, makes the
  iterator return a negative value (\<open>None\<close>). The callback is run on each row in turn.
\<close>

definition run_rows :: "world \<Rightarrow> string \<Rightarrow> tupid_t list \<Rightarrow> (graph \<Rightarrow> tup_entry \<Rightarrow> graph) \<Rightarrow> graph \<Rightarrow> graph option" where
  "run_rows w f ids cb g =
     (if fails w f then None
      else case those (map (tup_entry_add w) ids) of
        None \<Rightarrow> None
      | Some ts \<Rightarrow> Some (foldl cb g ts))"

text \<open>Modelled from the spec: the nodes of a flag table (section 4.C, \<open>iterate\<close>).\<close>

definition tup_db_select_node_by_flags ::
  "world \<Rightarrow> (graph \<Rightarrow> tup_entry \<Rightarrow> graph) \<Rightarrow> graph \<Rightarrow> tupid_t list \<Rightarrow> graph option" where
  "tup_db_select_node_by_flags w cb g flag_list =
     run_rows w ''tup_db_select_node_by_flags'' flag_list cb g"

text \<open>
  Modelled from the spec: the targets of the outgoing links of a node. Section 4.F,
  step 2a, names the normal and sticky links, while \<^verbatim>\<open>db.h\<close> declares a second iterator
  for the sticky links alone; the world says whether this one yields them too.
\<close>

definition link_targets :: "world \<Rightarrow> tupid_t \<Rightarrow> tupid_t list" where
  "link_targets w i =
     [b. (a, b, s) \<leftarrow> link_table w, a = i,
        s = TUP_LINK_NORMAL \<or> (by_link_sticky w \<and> s = TUP_LINK_STICKY)]"

definition tup_db_select_node_by_link ::
  "world \<Rightarrow> (graph \<Rightarrow> tup_entry \<Rightarrow> graph) \<Rightarrow> graph \<Rightarrow> tupid_t \<Rightarrow> graph option" where
  "tup_db_select_node_by_link w cb g i =
     run_rows w ''tup_db_select_node_by_link'' (link_targets w i) cb g"

text \<open>
  Modelled from the spec: the commands that produce into a group are the sources of
  the group links into it, each taken once (sections 3.2 and 4.D).
\<close>

definition group_producers :: "world \<Rightarrow> tupid_t \<Rightarrow> tupid_t list" where
  "group_producers w i = remdups [a. (a, b, s) \<leftarrow> link_table w, b = i, s = TUP_LINK_GROUP]"

definition tup_db_select_node_by_distinct_group_link ::
  "world \<Rightarrow> (graph \<Rightarrow> tup_entry \<Rightarrow> graph) \<Rightarrow> graph \<Rightarrow> tupid_t \<Rightarrow> graph option" where
  "tup_db_select_node_by_distinct_group_link w cb g i =
     run_rows w ''tup_db_select_node_by_distinct_group_link'' (group_producers w i) cb g"

text \<open>Modelled from the spec: the entries whose parent is the given id.\<close>

definition dir_children :: "world \<Rightarrow> tupid_t \<Rightarrow> tup_entry list" where
  "dir_children w i = filter (\<lambda>t. dt t = i) (node_table w)"

definition tup_db_select_node_dir ::
  "world \<Rightarrow> (graph \<Rightarrow> tup_entry \<Rightarrow> graph) \<Rightarrow> graph \<Rightarrow> tupid_t \<Rightarrow> graph option" where
  "tup_db_select_node_dir w cb g i =
     (if fails w ''tup_db_select_node_dir'' then None
      else Some (foldl cb g (dir_children w i)))"

text \<open>
  Modelled from the spec: \<^verbatim>\<open>add_graph_stickies\<close> is absent. Section 4.F, step 3: an
  edge of style sticky for each sticky link of the store between two nodes of the graph
  that no normal link doubles.
\<close>

definition sticky_only_links :: "world \<Rightarrow> graph \<Rightarrow> (tupid_t \<times> tupid_t) list" where
  "sticky_only_links w g =
     [(a, b). (a, b, s) \<leftarrow> link_table w, s = TUP_LINK_STICKY,
        find_node g a \<noteq> None, find_node g b \<noteq> None,
        (a, b, TUP_LINK_NORMAL) \<notin> set (link_table w)]"

definition add_graph_stickies :: "world \<Rightarrow> graph \<Rightarrow> graph option" where
  "add_graph_stickies w g =
     (if fails w ''add_graph_stickies'' then None
      else Some (g\<lparr>edges := edges g @ map (\<lambda>(a, b). (a, b, TUP_LINK_STICKY)) (sticky_only_links w g)\<rparr>))"

subsection \<open>The expansion loop of \<^verbatim>\<open>graph\<close>\<close>

text \<open>
  One turn of the \<^verbatim>\<open>while\<close> loop, for the node \<open>c\<close> at the head of \<open>plist\<close>: its
  links, the producers of a group, the move from \<open>plist\<close> to \<open>node_list\<close>, and the
  entries of the directory unless the node is named \<^verbatim>\<open>tup.config\<close>. A pointer
  that designates no node of the graph cannot be followed (\<open>None\<close>).
\<close>

definition graph_expand :: "world \<Rightarrow> gopts \<Rightarrow> graph \<Rightarrow> tupid_t \<Rightarrow> graph option" where
  "graph_expand w opt g c =
     (let g0 = g\<lparr>cur := Some c\<rparr> in
      case find_node g0 c of
        None \<Rightarrow> None
      | Some n \<Rightarrow>
          (case tup_db_select_node_by_link w (graph_cb w opt) g0 c of
             None \<Rightarrow> None
           | Some g1 \<Rightarrow>
               (case (if type (tent n) = TUP_NODE_GROUP
                      then tup_db_select_node_by_distinct_group_link w build_graph_group_cb g1 c
                      else Some g1) of
                  None \<Rightarrow> None
                | Some g2 \<Rightarrow>
                    let g3 = g2\<lparr>plist := node_remove_list (plist g2) c,
                                node_list := node_insert_head (node_list g2) c\<rparr>
                    in if name (tent n) \<noteq> TUP_CONFIG
                       then tup_db_select_node_dir w (graph_cb w opt) (g3\<lparr>cur := None\<rparr>) c
                       else Some g3)))"

text \<open>
  The loop ends: each turn takes one node off \<open>plist\<close>, and a node is put on it only
  when its \<^verbatim>\<open>expanded\<close> mark goes from 0 to 1, which happens once for each id of the
  node table.
\<close>

definition store_ids :: "world \<Rightarrow> tupid_t set" where
  "store_ids w = tupid ` set (node_table w)"

definition pending_work :: "world \<Rightarrow> graph \<Rightarrow> nat" where
  "pending_work w g = card {i \<in> store_ids w. \<not> is_expanded g i} + length (plist g)"

lemma map_of_append_single:
  "map_of (xs @ [(k, v)]) i = (case map_of xs i of Some x \<Rightarrow> Some x | None \<Rightarrow> if i = k then Some v else None)"
  by (induction xs) auto

lemma is_expanded_create_node [simp]: "is_expanded (create_node g t) i = is_expanded g i"
  by (auto simp: is_expanded_def find_node_def create_node_def map_of_append_single
      split: option.splits if_splits)

lemma map_of_set_expanded:
  "map_of (map (\<lambda>(k, n). if k = i then (k, n\<lparr>expanded := True\<rparr>) else (k, n)) xs) j =
     (if j = i then map_option (\<lambda>n. n\<lparr>expanded := True\<rparr>) (map_of xs j) else map_of xs j)"
  by (induction xs) auto

lemma find_node_set_expanded:
  "find_node (set_expanded g i) j =
     (if j = i then map_option (\<lambda>n. n\<lparr>expanded := True\<rparr>) (find_node g j) else find_node g j)"
  by (simp add: find_node_def set_expanded_def map_of_set_expanded)

lemma is_expanded_set_expanded:
  "is_expanded (set_expanded g i) j = (if j = i then find_node g i \<noteq> None else is_expanded g j)"
  by (auto simp: is_expanded_def find_node_set_expanded split: option.splits)

lemma find_node_create_node_self: "find_node (create_node g t) (tupid t) \<noteq> None"
  by (auto simp: find_node_def create_node_def map_of_append_single split: option.splits)

lemma is_expanded_lists [simp]:
  "is_expanded (g\<lparr>node_list := l\<rparr>) i = is_expanded g i"
  "is_expanded (g\<lparr>plist := p\<rparr>) i = is_expanded g i"
  "is_expanded (g\<lparr>cur := c\<rparr>) i = is_expanded g i"
  "is_expanded (g\<lparr>edges := e\<rparr>) i = is_expanded g i"
  by (simp_all add: is_expanded_def find_node_def)

lemma pending_work_enqueue:
  assumes "find_node g i \<noteq> None" "i \<in> store_ids w"
  shows "pending_work w (enqueue g i) = pending_work w g"
proof (cases "is_expanded g i")
  case True
  then show ?thesis by (simp add: enqueue_def)
next
  case False
  let ?A = "{j \<in> store_ids w. \<not> is_expanded g j}"
  have fin: "finite ?A" by (simp add: store_ids_def)
  have mem: "i \<in> ?A" using False assms by simp
  have "{j \<in> store_ids w. \<not> is_expanded (enqueue g i) j} = ?A - {i}"
    using False assms by (auto simp: enqueue_def is_expanded_set_expanded)
  then have "card {j \<in> store_ids w. \<not> is_expanded (enqueue g i) j} = card ?A - 1"
    using fin mem by simp
  moreover have "card ?A > 0" using fin mem by (auto simp: card_gt_0_iff)
  moreover have "length (plist (enqueue g i)) = Suc (length (plist g))"
    using False by (simp add: enqueue_def node_insert_head_def set_expanded_def)
  ultimately show ?thesis by (simp add: pending_work_def)
qed

lemma plist_enqueue: "set (plist g) \<subseteq> set (plist (enqueue g i))"
  by (auto simp: enqueue_def node_insert_head_def set_expanded_def)

lemma pending_work_upd [simp]:
  "pending_work w (g\<lparr>cur := c\<rparr>) = pending_work w g"
  "pending_work w (g\<lparr>edges := e\<rparr>) = pending_work w g"
  "pending_work w (g\<lparr>node_list := l\<rparr>) = pending_work w g"
  by (simp_all add: pending_work_def)

lemma pending_work_create_node [simp]: "pending_work w (create_node g t) = pending_work w g"
  by (simp add: pending_work_def) (simp add: create_node_def)

lemma pending_work_graph_cb:
  assumes "tupid t \<in> store_ids w"
  shows "pending_work w (graph_cb w opt g t) = pending_work w g"
  using assms
  by (auto simp: graph_cb_def Let_def create_edge_def pending_work_enqueue find_node_create_node_self
      split: option.splits)

lemma plist_graph_cb: "set (plist g) \<subseteq> set (plist (graph_cb w opt g t))"
proof -
  have "set (plist g) \<subseteq> set (plist (enqueue g (tupid t)))" by (rule plist_enqueue)
  moreover have "set (plist g) \<subseteq> set (plist (enqueue (create_node g t) (tupid t)))"
    using plist_enqueue [of "create_node g t" "tupid t"] by (simp add: create_node_def)
  ultimately show ?thesis
    by (auto simp: graph_cb_def Let_def create_edge_def split: option.splits)
qed

lemma pending_work_group_cb: "pending_work w (build_graph_group_cb g t) = pending_work w g"
  by (auto simp: build_graph_group_cb_def Let_def create_edge_def split: option.splits)

lemma plist_group_cb: "plist (build_graph_group_cb g t) = plist g"
  by (auto simp: build_graph_group_cb_def Let_def create_edge_def create_node_def split: option.splits)

lemma pending_work_foldl_graph_cb:
  "tupid ` set ts \<subseteq> store_ids w \<Longrightarrow>
   pending_work w (foldl (graph_cb w opt) g ts) = pending_work w g \<and>
   set (plist g) \<subseteq> set (plist (foldl (graph_cb w opt) g ts))"
proof (induction ts arbitrary: g)
  case Nil
  then show ?case by simp
next
  case (Cons t ts)
  then show ?case
    using plist_graph_cb [of g w opt t] by (fastforce simp: pending_work_graph_cb)
qed

lemma pending_work_foldl_group_cb:
  "pending_work w (foldl build_graph_group_cb g ts) = pending_work w g \<and>
   plist (foldl build_graph_group_cb g ts) = plist g"
  by (induction ts arbitrary: g) (simp_all add: pending_work_group_cb plist_group_cb)

lemma those_eq_Some: "those xs = Some ys \<Longrightarrow> xs = map Some ys"
  by (induction xs arbitrary: ys) (auto split: option.splits)

lemma tup_entry_add_in_table: "tup_entry_add w i = Some t \<Longrightarrow> t \<in> set (node_table w) \<and> tupid t = i"
  by (auto simp: tup_entry_add_def find_Some_iff)

lemma loaded_rows_in_store:
  assumes "those (map (tup_entry_add w) ids) = Some ts"
  shows "tupid ` set ts \<subseteq> store_ids w"
proof
  fix i assume "i \<in> tupid ` set ts"
  then obtain t where t: "t \<in> set ts" "i = tupid t" by auto
  from those_eq_Some [OF assms] have "map (tup_entry_add w) ids = map Some ts" .
  then have "Some t \<in> set (map (tup_entry_add w) ids)" using t by simp
  then obtain j where "tup_entry_add w j = Some t" by auto
  then show "i \<in> store_ids w" using t tup_entry_add_in_table [of w j t] by (auto simp: store_ids_def)
qed

lemma run_rows_graph_cb_work:
  assumes "run_rows w f ids (graph_cb w opt) g = Some g'"
  shows "pending_work w g' = pending_work w g \<and> set (plist g) \<subseteq> set (plist g')"
proof -
  from assms obtain ts where ts: "those (map (tup_entry_add w) ids) = Some ts"
    and g': "g' = foldl (graph_cb w opt) g ts"
    by (auto simp: run_rows_def split: if_splits option.splits)
  from pending_work_foldl_graph_cb [OF loaded_rows_in_store [OF ts]] g' show ?thesis by simp
qed

lemma run_rows_group_cb_work:
  assumes "run_rows w f ids build_graph_group_cb g = Some g'"
  shows "pending_work w g' = pending_work w g \<and> plist g' = plist g"
  using assms pending_work_foldl_group_cb
  by (auto simp: run_rows_def split: if_splits option.splits)

lemma select_node_dir_work:
  assumes "tup_db_select_node_dir w (graph_cb w opt) g i = Some g'"
  shows "pending_work w g' = pending_work w g"
proof -
  have "tupid ` set (dir_children w i) \<subseteq> store_ids w"
    by (auto simp: dir_children_def store_ids_def)
  from pending_work_foldl_graph_cb [OF this] assms show ?thesis
    by (auto simp: tup_db_select_node_dir_def split: if_splits)
qed

lemma pending_work_pop:
  assumes "c \<in> set (plist g)"
  shows "Suc (pending_work w (g\<lparr>plist := node_remove_list (plist g) c\<rparr>)) = pending_work w g"
proof -
  from assms have "length (plist g) > 0" by (cases "plist g") auto
  with assms show ?thesis
    by (simp add: pending_work_def node_remove_list_def length_remove1)
qed

lemma graph_expand_decreases:
  assumes "plist g = c # rest" and "graph_expand w opt g c = Some g'"
  shows "pending_work w g' < pending_work w g"
proof -
  let ?g0 = "g\<lparr>cur := Some c\<rparr>"
  from assms(2) obtain n g1 g2 where
    n: "find_node ?g0 c = Some n"
    and g1: "tup_db_select_node_by_link w (graph_cb w opt) ?g0 c = Some g1"
    and g2: "(if type (tent n) = TUP_NODE_GROUP
              then tup_db_select_node_by_distinct_group_link w build_graph_group_cb g1 c
              else Some g1) = Some g2"
    and g': "(let g3 = g2\<lparr>plist := node_remove_list (plist g2) c,
                          node_list := node_insert_head (node_list g2) c\<rparr>
              in if name (tent n) \<noteq> TUP_CONFIG
                 then tup_db_select_node_dir w (graph_cb w opt) (g3\<lparr>cur := None\<rparr>) c
                 else Some g3) = Some g'"
    by (auto simp: graph_expand_def Let_def split: option.splits)
  from g1 have w1: "pending_work w g1 = pending_work w g" and p1: "c \<in> set (plist g1)"
    using run_rows_graph_cb_work [of w _ _ opt ?g0 g1] assms(1)
    by (auto simp: tup_db_select_node_by_link_def)
  from g2 have w2: "pending_work w g2 = pending_work w g" and p2: "c \<in> set (plist g2)"
    using run_rows_group_cb_work [of w _ _ g1 g2] w1 p1
    by (auto simp: tup_db_select_node_by_distinct_group_link_def split: if_splits)
  let ?g3 = "g2\<lparr>plist := node_remove_list (plist g2) c,
                 node_list := node_insert_head (node_list g2) c\<rparr>"
  have w3: "Suc (pending_work w ?g3) = pending_work w g"
    using pending_work_pop [OF p2, of w] w2 by simp
  from g' have "pending_work w g' = pending_work w ?g3"
    using select_node_dir_work [of w opt "?g3\<lparr>cur := None\<rparr>" c g']
    by (auto simp: Let_def split: if_splits)
  with w3 show ?thesis by simp
qed

function graph_loop :: "world \<Rightarrow> gopts \<Rightarrow> graph \<Rightarrow> graph option" where
  "graph_loop w opt g =
     (case plist g of
        [] \<Rightarrow> Some g
      | c # _ \<Rightarrow>
          (case graph_expand w opt g c of
             None \<Rightarrow> None
           | Some g' \<Rightarrow> graph_loop w opt g'))"
  by pat_completeness auto
termination
  by (relation "measure (\<lambda>(w, opt, g). pending_work w g)") (auto intro: graph_expand_decreases)

subsection \<open>The command\<close>

text \<open>
  What \<^verbatim>\<open>graph\<close> does with an argument that names a target: a node that is new is
  marked expanded and put on \<open>plist\<close>, without passing through \<^verbatim>\<open>graph_cb\<close>.
\<close>

definition seed_target :: "graph \<Rightarrow> tup_entry \<Rightarrow> graph" where
  "seed_target g t =
     (case find_node g (tupid t) of
        None \<Rightarrow>
          (let g1 = set_expanded (create_node g t) (tupid t)
           in g1\<lparr>node_list := node_remove_list (node_list g1) (tupid t),
                 plist := node_insert_head (plist g1) (tupid t)\<rparr>)
      | Some n \<Rightarrow> g)"

text \<open>The argument loop of \<^verbatim>\<open>graph\<close>; \<open>Inl\<close> is the return of -1 for an unknown target.\<close>

fun graph_args :: "world \<Rightarrow> string list \<Rightarrow> nat \<Rightarrow> gopts \<Rightarrow> graph \<Rightarrow> event list + gopts \<times> graph" where
  "graph_args w [] x opt g = Inr (opt, g)"
| "graph_args w (a # as) x opt g =
     (if a = ''--dirs'' then graph_args w as (Suc x) (opt\<lparr>show_dirs := True\<rparr>) g
      else if a = ''--ghosts'' then graph_args w as (Suc x) (opt\<lparr>show_ghosts := True\<rparr>) g
      else if a = ''--env'' then graph_args w as (Suc x) (opt\<lparr>show_env := True\<rparr>) g
      else if a = ''--combine'' then graph_args w as (Suc x) (opt\<lparr>combine := True\<rparr>) g
      else if a = ''--stickies'' then graph_args w as (Suc x) (opt\<lparr>stickies := True\<rparr>) g
      else if a = ''--prune'' then Inr (opt\<lparr>pruned := Some x\<rparr>, g)
      else case get_tent_dt w (sub_dir_dt w) a of
        None \<Rightarrow> Inl [Stderr (''Unable to find tupid for: '' @ sq @ a @ sq @ nl)]
      | Some t \<Rightarrow> graph_args w as (Suc x) (opt\<lparr>default_graph := False\<rparr>) (seed_target g t))"

text \<open>The seeds taken from the create and modify flag tables when no target was named.\<close>

definition graph_default_seeds :: "world \<Rightarrow> gopts \<Rightarrow> graph \<Rightarrow> graph option" where
  "graph_default_seeds w opt g =
     (if default_graph opt then
        (case tup_db_select_node_by_flags w (graph_cb w opt) g (create_list w) of
           None \<Rightarrow> None
         | Some g1 \<Rightarrow> tup_db_select_node_by_flags w (graph_cb w opt) g1 (modify_list w))
      else Some g)"

text \<open>The graph as it stands before it is pruned and written: seeds, expansion, stickies.\<close>

definition graph_build :: "world \<Rightarrow> gopts \<Rightarrow> graph \<Rightarrow> graph option" where
  "graph_build w opt g =
     (case graph_default_seeds w opt g of
        None \<Rightarrow> None
      | Some g1 \<Rightarrow>
          (case graph_loop w opt g1 of
             None \<Rightarrow> None
           | Some g2 \<Rightarrow> if stickies opt then add_graph_stickies w g2 else Some g2))"

definition graph_opts0 :: "world \<Rightarrow> gopts" where
  "graph_opts0 w =
     \<lparr>show_dirs = option_flag w ''graph.dirs'',
      show_ghosts = option_flag w ''graph.ghosts'',
      show_env = option_flag w ''graph.environment'',
      combine = option_flag w ''graph.combine'',
      stickies = False, pruned = None, default_graph = True\<rparr>"

definition graph :: "world \<Rightarrow> string list \<Rightarrow> int \<times> event list" where
  "graph w argv =
     (if fails w ''tup_db_begin'' then (- 1, [])
      else if sub_dir_dt w < 0 then (- 1, [])
      else case graph_args w argv 0 (graph_opts0 w) (create_graph w) of
        Inl evs \<Rightarrow> (- 1, evs)
      | Inr (opt, g) \<Rightarrow>
          (case graph_build w opt g of
             None \<Rightarrow> (- 1, [])
           | Some g1 \<Rightarrow>
               (case (case pruned opt of
                        None \<Rightarrow> Some g1
                      | Some x \<Rightarrow> prune_graph w g1 (drop x argv)) of
                  None \<Rightarrow> (- 1, [])
                | Some g2 \<Rightarrow>
                    if fails w ''tup_db_commit''
                    then (- 1, [Dump_graph g2 (show_dirs opt) (combine opt)])
                    else (0, [Dump_graph g2 (show_dirs opt) (combine opt)]))))"

section \<open>The entry point\<close>

text \<open>\<^verbatim>\<open>struct help\<close> and the table \<^verbatim>\<open>helpers\<close>.\<close>

record helper =
  command :: string
  altcommand :: "string option"
  args :: string
  desc :: string

definition helpers :: "helper list" where
  \<open>helpers =
     [\<lparr>command = ''init'', altcommand = None, args = ''[directory]'',
        desc = ''Creates a '.tup' directory in the specified directory and initializes the tup database. If a directory name is unspecified, it defaults to creating '.tup' in the current directory. This defines the top of your project, as viewed by tup.''\<rparr>,
      \<lparr>command = ''upd'', altcommand = None, args = ''[<output_1> ... <output_n>]'',
        desc = ''Legacy secondary command. Calling 'tup upd' is equivalent to simply calling 'tup'.''\<rparr>,
      \<lparr>command = ''refactor'', altcommand = Some ''ref'', args = [],
        desc = ''The refactor command can be used to help refactor Tupfiles. This will cause tup to run through the parsing phase, but not execute any commands. If any Tupfiles that are parsed result in changes to the database, these are reported as errors.''\<rparr>,
      \<lparr>command = ''monitor'', altcommand = None, args = [],
        desc = ''*LINUX ONLY* Starts the inotify-based file monitor. The monitor must scan the filesystem once and initialize watches on each directory. Then when you make changes to the files, the monitor will see them and write them directly into the database. With the monitor running, 'tup' does not need to do the initial scan, and can start constructing the build graph immediately.''\<rparr>,
      \<lparr>command = ''stop'', altcommand = None, args = [],
        desc = ''Kills the monitor if it is running.''\<rparr>,
      \<lparr>command = ''variant'', altcommand = None, args = ''foo.config [bar.config] [...]'',
        desc = ''For each argument, this command creates a variant directory with tup.config symlinked (Windows: copied) to the specified config file.''\<rparr>,
      \<lparr>command = ''dbconfig'', altcommand = None, args = [],
        desc = ''Displays the current tup database configuration. These are internal values used by tup.''\<rparr>,
      \<lparr>command = ''options'', altcommand = None, args = [],
        desc = ''Displays all of the current tup options, as well as where they originated.''\<rparr>,
      \<lparr>command = ''graph'', altcommand = None,
        args = ''[--dirs] [--ghosts] [--env] [--combine] [--stickies] [<output_1> ... <output_n>]'',
        desc = ''Prints out a graphviz .dot format graph of the tup database to stdout. By default it only displays the parts of the graph that have changes. If you provide additional arguments, they are assumed to be files that you want to graph.''\<rparr>,
      \<lparr>command = ''todo'', altcommand = None, args = ''[<output_1> ... <output_n>]'',
        desc = ''Prints out the next steps in the tup process that will execute when updating the given outputs. If no outputs are specified then it prints the steps needed to update the whole project.''\<rparr>,
      \<lparr>command = ''generate'', altcommand = None,
        args = ''[--config config-file] script.sh (or script.bat on Windows)'',
        desc = ''The generate command will parse all Tupfiles and create a shell script that can build the program without running in a tup environment. The expected usage is in continuous integration environments that aren't compatible with tup's dependency checking (eg: if FUSE is not supported). On Windows, if the script filename has a ".bat" extension, then the output will be a batch script instead of a shell script.''\<rparr>,
      \<lparr>command = ''varsed'', altcommand = None, args = [],
        desc = ''The varsed command is used as a subprogram in a Tupfile; you would not run it manually at the command-line. It is used to read one file, and replace any variable references and write the output to a second file. Variable references are of the form @VARIABLE@, and are replaced with the corresponding value of the @-variable.''\<rparr>,
      \<lparr>command = ''scan'', altcommand = None, args = [],
        desc = ''You shouldn't ever need to run this, unless you want to make the database reflect the filesystem before running 'tup graph'. Scan is called automatically by 'upd' if the monitor isn't running.''\<rparr>]\<close>

definition print_help :: "helper \<Rightarrow> string \<Rightarrow> event list" where
  "print_help h tupexe =
     [Stderr (tupexe @ '' '' @ command h @ '' '' @ args h @ nl)] @
     (case altcommand h of
        Some alt \<Rightarrow> [Stderr (tupexe @ '' '' @ alt @ '' '' @ args h @ nl)]
      | None \<Rightarrow> []) @
     [Stderr (nl @ desc h @ nl)]"

definition version :: "world \<Rightarrow> event list" where
  "version w = [Stdout (''tup '' @ tup_version w @ nl)]"

text \<open>
  The first loop of \<^verbatim>\<open>main\<close> over the arguments that follow the name of the
  executable: the first one that does not start with a dash is the command, and the
  debug and help switches are taken wherever they stand. \<open>scan_arg\<close> is the body of
  the loop for the argument \<open>a\<close> at index \<open>x\<close>.
\<close>

definition scan_arg ::
  "string \<Rightarrow> nat \<Rightarrow> string option \<times> nat \<times> bool \<times> event list \<Rightarrow>
   string option \<times> nat \<times> bool \<times> event list" where
  "scan_arg a x st =
     (case st of (cmd, cmd_arg, show_help, evs) \<Rightarrow>
        let cmd1 = (if cmd = None \<and> (a = [] \<or> hd a \<noteq> CHR ''-'') then Some a else cmd);
            cmd_arg1 = (if cmd = None \<and> (a = [] \<or> hd a \<noteq> CHR ''-'') then x else cmd_arg)
        in if a = ''--debug-sql'' then
             (cmd1, cmd_arg1, show_help, evs @ [Call ''tup_db_enable_sql_debug'' []])
           else if a = ''--debug-fuse'' then
             (cmd1, cmd_arg1, show_help, evs @ [Call ''server_enable_debug'' []])
           else if a = ''-h'' \<or> a = ''--help'' then (cmd1, cmd_arg1, True, evs)
           else (cmd1, cmd_arg1, show_help, evs))"

fun scan_argv ::
  "string list \<Rightarrow> nat \<Rightarrow> string option \<times> nat \<times> bool \<times> event list \<Rightarrow>
   string option \<times> nat \<times> bool \<times> event list" where
  "scan_argv [] x st = st"
| "scan_argv (a # as) x st = scan_argv as (Suc x) (scan_arg a x st)"

text \<open>What \<^verbatim>\<open>main\<close> writes when help was asked for; it then returns 0.\<close>

definition show_help_text :: "string option \<Rightarrow> string \<Rightarrow> event list" where
  "show_help_text cmd tupexe =
     (case cmd of
        None \<Rightarrow>
          [Stderr (tupexe @ '' [--debug-sql] [--debug-fuse] [SECONDARY_COMMAND] [ARGS]'' @ nl @ nl),
           Stderr (''tup [<output_1> ... <output_n>]'' @ nl),
           Stderr (nl @ ''Updates the set of outputs based on the dependency graph and the current state of the filesystem. If no outputs are specified then the whole project is updated.'' @ nl),
           Stderr (nl @ ''SECONDARY COMMANDS'' @ nl @ nl)] @
          map (\<lambda>h. Stderr (tupexe @ '' '' @ command h @ nl)) helpers
      | Some c \<Rightarrow>
          (case find (\<lambda>h. c = command h \<or> altcommand h = Some c) helpers of
             Some h \<Rightarrow> print_help h tupexe
           | None \<Rightarrow> [Stderr (''tup: No help found for secondary command: '' @ c @ nl)]))"

text \<open>
  A secondary command whose body is not modelled: the value it returns is the world's,
  and the call is recorded.
\<close>

definition call :: "world \<Rightarrow> string \<Rightarrow> string list \<Rightarrow> int \<times> event list" where
  "call w f a = (ext w f a, [Call f a])"

definition call_updater :: "world \<Rightarrow> string list \<Rightarrow> int \<Rightarrow> int \<times> event list" where
  "call_updater w a phase = (updater w a phase, [Call_updater a phase])"

text \<open>
  The chain of comparisons of \<^verbatim>\<open>main\<close> that follows \<^verbatim>\<open>tup_init\<close>. The result is
  \<open>Inl r\<close> when \<^verbatim>\<open>main\<close> returns \<open>r\<close> from inside the chain, and otherwise \<open>Inr (rc,
  clear_autoupdate)\<close>. \<open>argv\<close> are the arguments after the command, \<open>orig_argv\<close> all
  of them.
\<close>

definition dispatch ::
  "world \<Rightarrow> string \<Rightarrow> string list \<Rightarrow> string list \<Rightarrow> (int + int \<times> bool) \<times> event list" where
  "dispatch w cmd argv orig_argv =
     (let ret = (\<lambda>(rc, evs). (Inr (rc, False), evs));
          ret_clear = (\<lambda>(rc, evs). (Inr (rc, True), evs))
      in
      if cmd = ''monitor'' then ret (call w ''monitor'' argv)
      else if cmd = ''entry'' then ret (call w ''entry'' argv)
      else if cmd = ''type'' then ret (call w ''type'' argv)
      else if cmd = ''tupid'' then ret (call w ''tupid'' argv)
      else if cmd = ''inputs'' then ret (inputs w argv)
      else if cmd = ''graph'' then ret (graph w argv)
      else if cmd = ''compiledb'' then ret (call w ''compiledb'' argv)
      else if cmd = ''commandline'' then ret (call w ''commandline'' argv)
      else if cmd = ''scan'' then
        (if fails w ''monitor_get_pid'' then (Inl (- 1), [])
         else if monitor_pid w > 0 then
           (Inr (1, False),
            [Stderr (''tup error: monitor appears to be running as pid '' @ string_of_int (monitor_pid w) @
               '' - not doing scan.'' @ nl @ '' - Run '' @ sq @ ''tup stop'' @ sq @
               '' if you want to kill the monitor and use scan instead.'' @ nl)])
         else ret (call w ''tup_scan'' []))
      else if cmd = ''link'' then ret (call w ''mlink'' argv)
      else if cmd = ''read'' then ret (call_updater w argv 1)
      else if cmd = ''parse'' then ret (call_updater w argv 2)
      else if cmd = ''upd'' then ret (call_updater w argv 0)
      else if cmd = ''refactor'' \<or> cmd = ''ref'' then ret (call_updater w argv (- 2))
      else if cmd = ''autoupdate'' then ret_clear (call_updater w argv 0)
      else if cmd = ''autoparse'' then ret_clear (call_updater w argv 2)
      else if cmd = ''todo'' then ret (call w ''todo'' argv)
      else if cmd = ''variant'' then ret (case variant w argv of (rc, evs, f) \<Rightarrow> (rc, evs))
      else if cmd = ''node_exists'' then ret (call w ''node_exists'' argv)
      else if cmd = ''normal_exists'' \<or> cmd = ''sticky_exists'' then
        (case link_exists w cmd argv of
           (rc, evs) \<Rightarrow> (Inr (if rc = 1 then 11 else rc, False), evs))
      else if cmd = ''flags_exists'' then
        ret (call w ''tup_db_check_flags''
               [''TUP_FLAGS_CONFIG'', ''TUP_FLAGS_CREATE'', ''TUP_FLAGS_MODIFY'', ''TUP_FLAGS_TRANSIENT''])
      else if cmd = ''create_flags_exists'' then
        ret (call w ''tup_db_check_flags'' [''TUP_FLAGS_CREATE''])
      else if cmd = ''touch'' then ret (call w ''touch'' argv)
      else if cmd = ''node'' then ret (call w ''node'' argv)
      else if cmd = ''varshow'' then ret (call w ''varshow'' argv)
      else if cmd = ''dbconfig'' then ret (call w ''dbconfig'' argv)
      else if cmd = ''options'' then ret (call w ''options'' argv)
      else if cmd = ''fake_mtime'' then ret (call w ''fake_mtime'' argv)
      else if cmd = ''fake_parser_version'' then ret (call w ''fake_parser_version'' argv)
      else if cmd = ''flush'' then ret (call w ''flush'' [])
      else if cmd = ''ghost_check'' then ret (call w ''ghost_check'' [])
      else if cmd = ''monitor_supported'' then ret (call w ''monitor_supported'' [])
      else ret (call_updater w orig_argv 0))"

text \<open>The end of \<^verbatim>\<open>main\<close>, from the test of \<^verbatim>\<open>clear_autoupdate\<close> to the last return.\<close>

definition finish :: "world \<Rightarrow> int \<Rightarrow> bool \<Rightarrow> event list \<Rightarrow> int \<times> event list" where
  "finish w rc clear_autoupdate evs =
     (let cleanup = (\<lambda>(rc1, evs1).
            let rc2 = (if fails w ''tup_cleanup'' then 1 else rc1)
            in (if rc2 < 0 then 1 else rc2, evs1))
      in if clear_autoupdate then
           (if fails w ''tup_db_begin'' then (- 1, evs)
            else
              let st = (if ext w ''tup_db_config_set_int'' [''AUTOUPDATE_PID'', ''-1''] < 0
                        then (1, evs @ [Stderr (''tup error: Unable to clear the autoupdate pid.'' @ nl)])
                        else (rc, evs))
              in if fails w ''tup_db_commit'' then (- 1, snd st) else cleanup st)
         else cleanup (rc, evs))"

text \<open>
  \<^verbatim>\<open>main\<close>, given the name of the executable (\<^verbatim>\<open>argv[0]\<close>) and the arguments after it,
  in the build for Linux. It returns the value \<^verbatim>\<open>main\<close> returns and what the run did.
  \<open>main_prelude\<close> is \<^verbatim>\<open>main\<close> up to and including the call of \<^verbatim>\<open>tup_init\<close>: \<open>Inl\<close> when
  \<^verbatim>\<open>main\<close> returns before the chain of commands, and otherwise the command, the
  arguments after it and what the run did so far. \<open>main_setup\<close> is its part from the
  test for \<^verbatim>\<open>--version\<close> on, once the command and its arguments are fixed.
\<close>

definition main_setup ::
  "world \<Rightarrow> string list \<Rightarrow> string \<Rightarrow> string list \<Rightarrow> event list \<Rightarrow>
   int \<times> event list + string \<times> string list \<times> event list" where
  "main_setup w orig_argv cmd argv evs =
     (if argv \<noteq> [] \<and> (hd argv = ''--version'' \<or> hd argv = ''-v'') then Inl (0, evs @ version w)
      else if cmd = ''varsed'' then
        (if fails w ''tup_drop_privs'' then Inl (1, evs)
         else Inl (ext w ''varsed'' argv, evs @ [Call ''varsed'' argv]))
      else if vardict w then
        Inl (- 1, evs @ [Stderr (''tup error: Command '' @ sq @ cmd @ sq @
           '' is not valid when running as a sub-process, or is unknown.'' @ nl)])
      else if cmd = ''init'' then
        (if fails w ''tup_drop_privs'' then Inl (1, evs)
         else Inl (ext w ''init_command'' argv, evs @ [Call ''init_command'' argv]))
      else if cmd = ''version'' then
        (if fails w ''tup_drop_privs'' then Inl (1, evs) else Inl (0, evs @ version w))
      else if cmd = ''generate'' then
        (if ext w ''generate'' argv < 0 then Inl (1, evs @ [Call ''generate'' argv])
         else Inl (0, evs @ [Call ''generate'' argv]))
      else if cmd = ''privileged'' then
        (if ext w ''unshare'' [''CLONE_NEWUSER''] = 0 then Inl (1, evs)
         else Inl (ext w ''tup_privileged'' [], evs @ [Call ''tup_privileged'' []]))
      else if cmd = ''server'' then Inl (0, evs @ [Stdout (TUP_SERVER w @ nl)])
      else if ext w ''tup_option_process_ini'' [] \<noteq> 0 then Inl (1, evs)
      else if cmd = ''stop'' then
        (if fails w ''tup_drop_privs'' then Inl (1, evs)
         else if fails w ''find_tup_dir'' then
           Inl (- 1, evs @ [Stderr (''No .tup directory found - unable to stop the file monitor.'' @ nl)])
         else if fails w ''open_tup_top'' then Inl (- 1, evs)
         else Inl (ext w ''stop_monitor'' [''TUP_MONITOR_SHUTDOWN''],
                   evs @ [Call ''stop_monitor'' [''TUP_MONITOR_SHUTDOWN'']]))
      else if cmd = ''waitmon'' then
        (if fails w ''tup_drop_privs'' then Inl (1, evs)
         else if fails w ''find_tup_dir'' then
           Inl (- 1, evs @ [Stderr (''No .tup directory found - unable to stop the file monitor.'' @ nl)])
         else if fails w ''open_tup_top'' then Inl (- 1, evs)
         else if ext w ''waitmon'' [] < 0 then Inl (1, evs @ [Call ''waitmon'' []])
         else Inl (0, evs @ [Call ''waitmon'' []]))
      else if ext w ''tup_init'' orig_argv < 0 then Inl (1, evs)
      else Inr (cmd, argv, evs))"

definition main_prelude ::
  "world \<Rightarrow> string \<Rightarrow> string list \<Rightarrow> int \<times> event list + string \<times> string list \<times> event list" where
  "main_prelude w tupexe orig_argv =
     (case scan_argv orig_argv 0 (None, 0, False, []) of
        (cmd0, cmd_arg, show_help, evs) \<Rightarrow>
          if show_help then Inl (0, evs @ show_help_text cmd0 tupexe)
          else
            (case cmd0 of
               None \<Rightarrow> main_setup w orig_argv ''upd'' orig_argv evs
             | Some c \<Rightarrow> main_setup w orig_argv c (drop (cmd_arg + 1) orig_argv) evs))"

definition main :: "world \<Rightarrow> string \<Rightarrow> string list \<Rightarrow> int \<times> event list" where
  "main w tupexe orig_argv =
     (case main_prelude w tupexe orig_argv of
        Inl r \<Rightarrow> r
      | Inr (cmd, argv, evs) \<Rightarrow>
          (case dispatch w cmd argv orig_argv of
             (Inl r, evs1) \<Rightarrow> (r, evs @ evs1)
           | (Inr (rc, clear_autoupdate), evs1) \<Rightarrow> finish w rc clear_autoupdate (evs @ evs1)))"

section \<open>A sample project\<close>

text \<open>
  The store after one build of a directory with a source file, a compile command
  that also looked for a header which does not exist (a ghost), and the object file;
  the command is flagged for another run. No monitor is running and no call fails.
\<close>

definition demo_world :: world where
  "demo_world =
     \<lparr>node_table =
        [\<lparr>tupid = 1, dt = 0, name = ''.'', type = TUP_NODE_DIR\<rparr>,
         \<lparr>tupid = 2, dt = 1, name = ''a.c'', type = TUP_NODE_FILE\<rparr>,
         \<lparr>tupid = 3, dt = 1, name = ''cc a.c'', type = TUP_NODE_CMD\<rparr>,
         \<lparr>tupid = 4, dt = 1, name = ''a.h'', type = TUP_NODE_GHOST\<rparr>,
         \<lparr>tupid = 5, dt = 1, name = ''a.o'', type = TUP_NODE_GENERATED\<rparr>],
      link_table =
        [(2, 3, TUP_LINK_NORMAL), (2, 3, TUP_LINK_STICKY), (4, 3, TUP_LINK_NORMAL),
         (3, 5, TUP_LINK_NORMAL)],
      create_list = [],
      modify_list = [3],
      env_dt = 100,
      option_flag = (\<lambda>_. False),
      sub_dir_dt = 1,
      sub_dir = [],
      find_dir_tupid = (\<lambda>_. 1),
      get_tent_dt = (\<lambda>_ _. None),
      graph_root = None,
      by_link_sticky = False,
      tup_top = [''home'', ''u'', ''proj''],
      fsys = [],
      PATH_MAX = 4096,
      monitor_pid = - 1,
      vardict = False,
      tup_version = ''v0.8'',
      TUP_SERVER = ''fuse'',
      ext = (\<lambda>_ _. 0),
      updater = (\<lambda>_ _. 0),
      prune_graph = (\<lambda>g _. Some g)\<rparr>"

section \<open>Properties of the inputs command\<close>







section \<open>Properties of the entry point\<close>

text \<open>The commands that \<^verbatim>\<open>main\<close> compares the command word with.\<close>

definition secondary_commands :: "string list" where
  "secondary_commands =
     [''varsed'', ''init'', ''version'', ''generate'', ''privileged'', ''server'', ''stop'', ''waitmon'',
      ''monitor'', ''entry'', ''type'', ''tupid'', ''inputs'', ''graph'', ''compiledb'', ''commandline'',
      ''scan'', ''link'', ''read'', ''parse'', ''upd'', ''refactor'', ''ref'', ''autoupdate'', ''autoparse'',
      ''todo'', ''variant'', ''node_exists'', ''normal_exists'', ''sticky_exists'', ''flags_exists'',
      ''create_flags_exists'', ''touch'', ''node'', ''varshow'', ''dbconfig'', ''options'', ''fake_mtime'',
      ''fake_parser_version'', ''flush'', ''ghost_check'', ''monitor_supported'']"

definition version_asked :: "string list \<Rightarrow> bool" where
  "version_asked argv = (argv \<noteq> [] \<and> (hd argv = ''--version'' \<or> hd argv = ''-v''))"

text \<open>The sample project with a monitor running, with a failing final cleanup, and
  with an updater that fails.\<close>

definition monitored_world :: world where
  "monitored_world = demo_world\<lparr>monitor_pid := 4242\<rparr>"

definition failing_cleanup_world :: world where
  "failing_cleanup_world = demo_world\<lparr>ext := (\<lambda>f a. if f = ''tup_cleanup'' then - 1 else 0)\<rparr>"

definition failing_update_world :: world where
  "failing_update_world = demo_world\<lparr>updater := (\<lambda>a phase. 3)\<rparr>"

lemmas main_eval =
  main_def main_prelude_def scan_arg_def main_setup_def finish_def dispatch_def call_def
  call_updater_def fails_def version_def link_exists_def tup_entry_add_def tup_db_select_tent_def
  tup_db_link_exists_def demo_world_def Let_def

text \<open>An event that records the call of an external function.\<close>

definition is_call :: "event \<Rightarrow> bool" where
  "is_call e = (case e of Call f a \<Rightarrow> True | _ \<Rightarrow> False)"

lemma scan_arg_events:
  "scan_arg a x (cmd, k, sh, evs) = (cmd', k', sh', evs') \<Longrightarrow>
   set evs' \<subseteq> set evs \<union> {Call ''tup_db_enable_sql_debug'' [], Call ''server_enable_debug'' []}"
  by (auto simp: scan_arg_def Let_def split: if_splits)

lemma scan_argv_events:
  "scan_argv as x (cmd, k, sh, evs) = (cmd', k', sh', evs') \<Longrightarrow>
   set evs' \<subseteq> set evs \<union> {Call ''tup_db_enable_sql_debug'' [], Call ''server_enable_debug'' []}"
proof (induction as arbitrary: x cmd k sh evs)
  case Nil
  then show ?case by auto
next
  case (Cons a as)
  obtain c1 k1 s1 e1 where st: "scan_arg a x (cmd, k, sh, evs) = (c1, k1, s1, e1)"
    by (cases "scan_arg a x (cmd, k, sh, evs)") auto
  from Cons.prems st have "scan_argv as (Suc x) (c1, k1, s1, e1) = (cmd', k', sh', evs')" by simp
  from Cons.IH [OF this] scan_arg_events [OF st] show ?case by blast
qed

lemma inputs_loop_no_call:
  "inputs_loop w as evs = (b, evs') \<Longrightarrow> \<forall>e\<in>set evs. \<not> is_call e \<Longrightarrow> \<forall>e\<in>set evs'. \<not> is_call e"
proof (induction as arbitrary: evs)
  case Nil
  then show ?case by simp
next
  case (Cons a as)
  from Cons.prems show ?case
    by (auto simp: Let_def is_call_def inputs_print_def split: if_splits option.splits dest!: Cons.IH)
qed

lemma inputs_no_call: "\<forall>e\<in>set (snd (inputs w argv)). \<not> is_call e"
proof (cases "inputs_loop w argv []")
  case (Pair b evs)
  from inputs_loop_no_call [OF Pair] have "\<forall>e\<in>set evs. \<not> is_call e" by simp
  with Pair show ?thesis by (auto simp: inputs_def split: if_splits bool.splits)
qed

lemma graph_args_no_call: "graph_args w as x opt g = Inl evs \<Longrightarrow> \<forall>e\<in>set evs. \<not> is_call e"
  by (induction w as x opt g rule: graph_args.induct)
     (auto simp: is_call_def split: if_splits option.splits)

lemma graph_no_call: "\<forall>e\<in>set (snd (graph w argv)). \<not> is_call e"
  by (auto simp: graph_def is_call_def split: if_splits sum.splits option.splits prod.splits
      dest!: graph_args_no_call)

lemma dir_empty_no_call: "\<forall>e\<in>set (snd (dir_empty w f d)). \<not> is_call e"
  by (auto simp: dir_empty_def is_call_def fchdir_failed_def split: option.splits)

lemma create_variant_no_call: "\<forall>e\<in>set (fst (snd (create_variant w f p))). \<not> is_call e"
  using dir_empty_no_call [of w f "variant_dirname w p"]
  by (auto simp: create_variant_def Let_def is_call_def fchdir_failed_def
      split: if_splits sum.splits prod.splits option.splits)

lemma variant_loop_no_call:
  "variant_loop w f as evs = (b, evs', f') \<Longrightarrow> \<forall>e\<in>set evs. \<not> is_call e \<Longrightarrow> \<forall>e\<in>set evs'. \<not> is_call e"
proof (induction as arbitrary: f evs)
  case Nil
  then show ?case by simp
next
  case (Cons a as)
  obtain rc evs1 f1 where cv: "create_variant w f a = (rc, evs1, f1)" by (cases "create_variant w f a") auto
  with create_variant_no_call [of w f a] have e1: "\<forall>e\<in>set evs1. \<not> is_call e" by simp
  show ?case
  proof (cases "rc < 0")
    case True
    with Cons.prems cv e1 show ?thesis by auto
  next
    case False
    with Cons.prems cv have "variant_loop w f1 as (evs @ evs1) = (b, evs', f')" by simp
    from Cons.IH [OF this] Cons.prems(2) e1 show ?thesis by auto
  qed
qed

lemma variant_no_call: "\<forall>e\<in>set (fst (snd (variant w argv))). \<not> is_call e"
proof (cases "variant_loop w (fsys w) argv []")
  case (fields b evs f)
  from variant_loop_no_call [OF fields] have "\<forall>e\<in>set evs. \<not> is_call e" by simp
  with fields show ?thesis by (auto simp: variant_def is_call_def split: if_splits bool.splits)
qed

lemma link_exists_no_call: "\<forall>e\<in>set (snd (link_exists w cmd argv)). \<not> is_call e"
  by (auto simp: link_exists_def Let_def is_call_def dir_missing_def node_missing_def
      split: if_splits list.splits option.splits)


lemma not_call_not_scan: "\<not> is_call e \<Longrightarrow> e \<noteq> Call f a"
  by (auto simp: is_call_def)

lemma dispatch_tup_scan:
  assumes "Call ''tup_scan'' [] \<in> set (snd (dispatch w cmd argv orig_argv))"
  shows "cmd = ''scan'' \<and> \<not> fails w ''monitor_get_pid'' \<and> \<not> 0 < monitor_pid w"
proof -
  have a: "Call ''tup_scan'' [] \<notin> set (snd (inputs w argv))"
    using inputs_no_call [of w argv] by (auto simp: is_call_def)
  have b: "Call ''tup_scan'' [] \<notin> set (snd (graph w argv))"
    using graph_no_call [of w argv] by (auto simp: is_call_def)
  have c: "Call ''tup_scan'' [] \<notin> set (fst (snd (variant w argv)))"
    using variant_no_call [of w argv] by (auto simp: is_call_def)
  have d: "Call ''tup_scan'' [] \<notin> set (snd (link_exists w cmd argv))"
    using link_exists_no_call [of w cmd argv] by (auto simp: is_call_def)
  show ?thesis
    using assms a b c d
    by (simp add: dispatch_def call_def call_updater_def Let_def split: if_splits prod.splits)
qed

lemma main_setup_Inr:
  "main_setup w orig_argv cmd argv evs = Inr (cmd', argv', evs') \<Longrightarrow> cmd' = cmd \<and> argv' = argv \<and> evs' = evs"
  by (simp add: main_setup_def split: if_splits)

lemma main_setup_Inl_no_scan:
  "main_setup w orig_argv cmd argv evs = Inl (r, evs') \<Longrightarrow> Call ''tup_scan'' [] \<notin> set evs \<Longrightarrow>
   Call ''tup_scan'' [] \<notin> set evs'"
  by (auto simp: main_setup_def version_def split: if_splits)

lemma main_prelude_Inr_events:
  assumes "main_prelude w tupexe orig_argv = Inr (cmd, argv, evs)"
  shows "set evs \<subseteq> {Call ''tup_db_enable_sql_debug'' [], Call ''server_enable_debug'' []}"
proof -
  obtain c k sh es where s: "scan_argv orig_argv 0 (None, 0, False, []) = (c, k, sh, es)"
    by (cases "scan_argv orig_argv 0 (None, 0, False, [])") auto
  from scan_argv_events [OF s] have "set es \<subseteq> {Call ''tup_db_enable_sql_debug'' [], Call ''server_enable_debug'' []}"
    by simp
  moreover from assms s have "evs = es"
    by (auto simp: main_prelude_def split: if_splits option.splits dest: main_setup_Inr)
  ultimately show ?thesis by simp
qed

lemma main_prelude_Inl_no_scan:
  assumes "main_prelude w tupexe orig_argv = Inl (r, evs)"
  shows "Call ''tup_scan'' [] \<notin> set evs"
proof -
  obtain c k sh es where s: "scan_argv orig_argv 0 (None, 0, False, []) = (c, k, sh, es)"
    by (cases "scan_argv orig_argv 0 (None, 0, False, [])") auto
  from scan_argv_events [OF s] have es: "Call ''tup_scan'' [] \<notin> set es"
    by auto
  have h: "Call ''tup_scan'' [] \<notin> set (show_help_text c tupexe)"
    by (auto simp: show_help_text_def print_help_def split: option.splits)
  from assms s es h show ?thesis
    by (auto simp: main_prelude_def split: if_splits option.splits dest: main_setup_Inl_no_scan)
qed

text \<open>
  The arguments as \<^verbatim>\<open>main\<close> reads them: the command word is the first argument that
  does not start with a dash, the arguments of the command are those after it (all of
  them when there is no command word, and the command is then \<^verbatim>\<open>upd\<close>), help is asked
  for by \<^verbatim>\<open>-h\<close> or \<^verbatim>\<open>--help\<close> anywhere, and each debug switch is a call.
\<close>

definition is_flag :: "string \<Rightarrow> bool" where
  "is_flag a = (a \<noteq> [] \<and> hd a = CHR ''-'')"

definition command_word :: "string list \<Rightarrow> string option" where
  "command_word as = find (\<lambda>a. \<not> is_flag a) as"

definition after_command :: "string list \<Rightarrow> string list" where
  "after_command as = tl (dropWhile is_flag as)"

definition help_asked :: "string list \<Rightarrow> bool" where
  "help_asked as = (''-h'' \<in> set as \<or> ''--help'' \<in> set as)"

definition debug_calls :: "string list \<Rightarrow> event list" where
  "debug_calls as =
     concat (map (\<lambda>a. if a = ''--debug-sql'' then [Call ''tup_db_enable_sql_debug'' []]
                       else if a = ''--debug-fuse'' then [Call ''server_enable_debug'' []] else []) as)"

definition command_of :: "string list \<Rightarrow> string" where
  "command_of as = (case command_word as of None \<Rightarrow> ''upd'' | Some c \<Rightarrow> c)"

definition arguments_of :: "string list \<Rightarrow> string list" where
  "arguments_of as = (case command_word as of None \<Rightarrow> as | Some c \<Rightarrow> after_command as)"

text \<open>The commands that \<^verbatim>\<open>main\<close> runs and returns from before it calls \<^verbatim>\<open>tup_init\<close>.\<close>

definition early_commands :: "string list" where
  "early_commands =
     [''varsed'', ''init'', ''version'', ''generate'', ''privileged'', ''server'', ''stop'', ''waitmon'']"

text \<open>
  The set-up succeeds: neither help nor the version is asked for, the command is one of
  the chain that follows \<^verbatim>\<open>tup_init\<close>, the process is not a sub-process of tup, and
  \<^verbatim>\<open>tup_option_process_ini\<close> and \<^verbatim>\<open>tup_init\<close> succeed.
\<close>

definition setup_ok :: "world \<Rightarrow> string list \<Rightarrow> bool" where
  "setup_ok w as =
     (\<not> help_asked as \<and> \<not> version_asked (arguments_of as) \<and> command_of as \<notin> set early_commands \<and>
      \<not> vardict w \<and> ext w ''tup_option_process_ini'' [] = 0 \<and> \<not> ext w ''tup_init'' as < 0)"

lemma scan_argv_known:
  "scan_argv as x (Some c, k, sh, evs) = (Some c, k, sh \<or> help_asked as, evs @ debug_calls as)"
proof (induction as arbitrary: x sh evs)
  case Nil
  then show ?case by (simp add: help_asked_def debug_calls_def)
next
  case (Cons a as)
  have "scan_arg a x (Some c, k, sh, evs) =
      (Some c, k, sh \<or> a = ''-h'' \<or> a = ''--help'', evs @ debug_calls [a])"
    by (auto simp: scan_arg_def debug_calls_def Let_def)
  then show ?case
    using Cons.IH [of "Suc x" "sh \<or> a = ''-h'' \<or> a = ''--help''" "evs @ debug_calls [a]"]
    by (auto simp: help_asked_def debug_calls_def)
qed

lemma scan_argv_result:
  "scan_argv as x (None, k, sh, evs) =
     (command_word as,
      (if command_word as = None then k else x + length (takeWhile is_flag as)),
      sh \<or> help_asked as, evs @ debug_calls as)"
proof (induction as arbitrary: x sh evs)
  case Nil
  then show ?case by (simp add: help_asked_def debug_calls_def command_word_def)
next
  case (Cons a as)
  show ?case
  proof (cases "is_flag a")
    case True
    then have "scan_arg a x (None, k, sh, evs) =
      (None, k, sh \<or> a = ''-h'' \<or> a = ''--help'', evs @ debug_calls [a])"
      by (auto simp: scan_arg_def debug_calls_def is_flag_def Let_def)
    then show ?thesis
      using True Cons.IH [of "Suc x" "sh \<or> a = ''-h'' \<or> a = ''--help''" "evs @ debug_calls [a]"]
      by (auto simp: help_asked_def debug_calls_def command_word_def)
  next
    case False
    then have "scan_arg a x (None, k, sh, evs) =
      (Some a, x, sh \<or> a = ''-h'' \<or> a = ''--help'', evs @ debug_calls [a])"
      by (auto simp: scan_arg_def debug_calls_def is_flag_def Let_def)
    then show ?thesis
      using False scan_argv_known [of as "Suc x" a x "sh \<or> a = ''-h'' \<or> a = ''--help''" "evs @ debug_calls [a]"]
      by (auto simp: help_asked_def debug_calls_def command_word_def)
  qed
qed

lemma drop_after_command:
  "drop (length (takeWhile is_flag as) + 1) as = after_command as"
proof -
  have "drop (Suc (length (takeWhile is_flag as))) as = tl (drop (length (takeWhile is_flag as)) as)"
    by (simp add: drop_Suc tl_drop)
  also have "drop (length (takeWhile is_flag as)) as = dropWhile is_flag as"
    by (induction as) auto
  finally show ?thesis by (simp add: after_command_def)
qed

lemma main_prelude_args:
  "main_prelude w tupexe as =
     (if help_asked as then Inl (0, debug_calls as @ show_help_text (command_word as) tupexe)
      else main_setup w as (command_of as) (arguments_of as) (debug_calls as))"
proof (cases "command_word as")
  case None
  then show ?thesis
    by (simp add: main_prelude_def scan_argv_result command_of_def arguments_of_def)
next
  case (Some c)
  then show ?thesis
    using drop_after_command [of as]
    by (simp add: main_prelude_def scan_argv_result command_of_def arguments_of_def)
qed

lemma main_setup_version:
  assumes "version_asked argv"
  shows "main_setup w orig c argv evs = Inl (0, evs @ version w)"
  using assms by (simp add: main_setup_def version_asked_def)

lemma main_setup_chain:
  assumes "c \<notin> set early_commands" and "\<not> version_asked argv" and "\<not> vardict w"
  shows "main_setup w orig c argv evs =
     (if ext w ''tup_option_process_ini'' [] \<noteq> 0 then Inl (1, evs)
      else if ext w ''tup_init'' orig < 0 then Inl (1, evs)
      else Inr (c, argv, evs))"
proof -
  from assms(2) have v: "(argv \<noteq> [] \<and> (hd argv = ''--version'' \<or> hd argv = ''-v'')) = False"
    by (simp add: version_asked_def)
  from assms(1) have n: "c \<noteq> ''varsed''" "c \<noteq> ''init''" "c \<noteq> ''version''" "c \<noteq> ''generate''"
    "c \<noteq> ''privileged''" "c \<noteq> ''server''" "c \<noteq> ''stop''" "c \<noteq> ''waitmon''"
    by (auto simp: early_commands_def)
  show ?thesis
    using assms(3) by (simp add: main_setup_def v n)
qed

lemma main_prelude_setup_ok:
  assumes "setup_ok w as"
  shows "main_prelude w tupexe as = Inr (command_of as, arguments_of as, debug_calls as)"
  using assms main_setup_chain [of "command_of as" "arguments_of as" w as "debug_calls as"]
  by (simp add: main_prelude_args setup_ok_def)

lemma debug_calls_no_scan: "Call ''tup_scan'' [] \<notin> set (debug_calls as)"
  by (auto simp: debug_calls_def)

lemma main_no_scan_while_monitored:
  assumes c: "Call ''tup_scan'' [] \<in> set (snd (main w tupexe orig_argv))"
  shows "\<not> 0 < monitor_pid w"
proof (cases "main_prelude w tupexe orig_argv")
  case (Inl r)
  with c main_prelude_Inl_no_scan [of w tupexe orig_argv "fst r" "snd r"] show ?thesis
    by (simp add: main_def)
next
  case (Inr p)
  obtain cmd argv evs where p: "p = (cmd, argv, evs)" by (cases p) auto
  from main_prelude_Inr_events [of w tupexe orig_argv cmd argv evs] Inr p
  have e0: "Call ''tup_scan'' [] \<notin> set evs" by auto
  obtain res evs1 where d: "dispatch w cmd argv orig_argv = (res, evs1)"
    by (cases "dispatch w cmd argv orig_argv") auto
  have "snd (main w tupexe orig_argv) = evs @ evs1 \<or>
        snd (main w tupexe orig_argv) = evs @ evs1 @ [Stderr (''tup error: Unable to clear the autoupdate pid.'' @ nl)]"
    using Inr p d
    by (auto simp: main_def finish_def Let_def split: sum.splits prod.splits if_splits)
  with c e0 have "Call ''tup_scan'' [] \<in> set evs1" by auto
  with d dispatch_tup_scan [of w cmd argv orig_argv] show ?thesis by simp
qed

lemma scan_setup_ok:
  assumes "command_word as = Some ''scan''" "\<not> help_asked as" "\<not> version_asked (after_command as)"
    "\<not> vardict w" "ext w ''tup_option_process_ini'' [] = 0" "\<not> ext w ''tup_init'' as < 0"
  shows "main_prelude w tupexe as = Inr (''scan'', after_command as, debug_calls as)"
proof -
  from assms(1) have c: "command_of as = ''scan''" and a: "arguments_of as = after_command as"
    by (simp_all add: command_of_def arguments_of_def)
  have "setup_ok w as"
    using assms by (simp add: setup_ok_def c a early_commands_def)
  from main_prelude_setup_ok [OF this] c a show ?thesis by simp
qed

text \<open>
  C8, as amended. When the command word is \<^verbatim>\<open>scan\<close>, no help is asked for, the version
  is not asked for right after the command word, the process is not a sub-process of
  tup, \<^verbatim>\<open>tup_option_process_ini\<close>, \<^verbatim>\<open>tup_init\<close> and \<^verbatim>\<open>monitor_get_pid\<close> succeed and the
  pid of the monitor is positive, then \<^verbatim>\<open>main\<close> calls no scan, writes the error that
  names the pid and returns 1. And in every run, \<^verbatim>\<open>tup_scan\<close> is called only when the
  pid of the monitor is not positive.
\<close>

theorem scan_refused_while_monitor_runs:
  "(command_word as = Some ''scan'' \<and> \<not> help_asked as \<and> \<not> version_asked (after_command as) \<and>
      \<not> vardict w \<and> ext w ''tup_option_process_ini'' [] = 0 \<and> \<not> ext w ''tup_init'' as < 0 \<and>
      \<not> fails w ''monitor_get_pid'' \<and> 0 < monitor_pid w \<longrightarrow>
        main w tupexe as =
          (1, debug_calls as @ [Stderr (''tup error: monitor appears to be running as pid '' @
                 string_of_int (monitor_pid w) @ '' - not doing scan.'' @ nl @ '' - Run '' @ sq @
                 ''tup stop'' @ sq @ '' if you want to kill the monitor and use scan instead.'' @ nl)])
        \<and> Call ''tup_scan'' [] \<notin> set (snd (main w tupexe as)))
   \<and> (Call ''tup_scan'' [] \<in> set (snd (main w tupexe as)) \<longrightarrow> \<not> 0 < monitor_pid w)"
proof (intro conjI impI)
  assume h: "command_word as = Some ''scan'' \<and> \<not> help_asked as \<and> \<not> version_asked (after_command as) \<and>
      \<not> vardict w \<and> ext w ''tup_option_process_ini'' [] = 0 \<and> \<not> ext w ''tup_init'' as < 0 \<and>
      \<not> fails w ''monitor_get_pid'' \<and> 0 < monitor_pid w"
  then have p: "main_prelude w tupexe as = Inr (''scan'', after_command as, debug_calls as)"
    by (intro scan_setup_ok) simp_all
  from h p show "main w tupexe as =
          (1, debug_calls as @ [Stderr (''tup error: monitor appears to be running as pid '' @
                 string_of_int (monitor_pid w) @ '' - not doing scan.'' @ nl @ '' - Run '' @ sq @
                 ''tup stop'' @ sq @ '' if you want to kill the monitor and use scan instead.'' @ nl)])"
    by (simp add: main_def dispatch_def finish_def Let_def)
  from h show "Call ''tup_scan'' [] \<notin> set (snd (main w tupexe as))"
    using main_no_scan_while_monitored [of w tupexe as] by blast
next
  assume "Call ''tup_scan'' [] \<in> set (snd (main w tupexe as))"
  then show "\<not> 0 < monitor_pid w" by (rule main_no_scan_while_monitored)
qed

theorem scan_refused_while_monitor_runs_witness:
  "command_word [''scan''] = Some ''scan'' \<and> \<not> help_asked [''scan''] \<and>
   \<not> version_asked (after_command [''scan'']) \<and> \<not> vardict monitored_world \<and>
   ext monitored_world ''tup_option_process_ini'' [] = 0 \<and>
   \<not> ext monitored_world ''tup_init'' [''scan''] < 0 \<and>
   \<not> fails monitored_world ''monitor_get_pid'' \<and> 0 < monitor_pid monitored_world
   \<and> main monitored_world ''tup'' [''scan''] =
       (1, [Stderr (''tup error: monitor appears to be running as pid 4242 - not doing scan.'' @ nl @
              '' - Run '' @ sq @ ''tup stop'' @ sq @
              '' if you want to kill the monitor and use scan instead.'' @ nl)])
   \<and> Call ''tup_scan'' [] \<in> set (snd (main demo_world ''tup'' [''scan'']))
   \<and> \<not> 0 < monitor_pid demo_world"
proof -
  have a: "command_word [''scan''] = Some ''scan''" "\<not> help_asked [''scan'']"
    "\<not> version_asked (after_command [''scan''])"
    by (simp_all add: command_word_def is_flag_def help_asked_def version_asked_def after_command_def)
  have b: "\<not> vardict monitored_world" "ext monitored_world ''tup_option_process_ini'' [] = 0"
    "\<not> ext monitored_world ''tup_init'' [''scan''] < 0"
    "\<not> fails monitored_world ''monitor_get_pid''" "0 < monitor_pid monitored_world"
    by (simp_all add: monitored_world_def demo_world_def fails_def)
  have s: "string_of_int (monitor_pid monitored_world) = ''4242''"
    by (simp add: string_of_int_def monitored_world_def demo_world_def string_of_nat.simps)
  have d: "debug_calls [''scan''] = []" by (simp add: debug_calls_def)
  have c: "Call ''tup_scan'' [] \<in> set (snd (main demo_world ''tup'' [''scan'']))"
    by (simp add: main_eval)
  from scan_refused_while_monitor_runs [of "[''scan'']" monitored_world "''tup''"] a b s d
    scan_refused_while_monitor_runs [of "[''scan'']" demo_world "''tup''"] c
  show ?thesis by simp
qed

text \<open>
  C8 as stated fails: with a monitor running, \<^verbatim>\<open>tup scan --version\<close> writes the version
  and returns 0; no error names the pid.
\<close>

theorem scan_refused_while_monitor_runs_counterexample:
  "command_word [''scan'', ''--version''] = Some ''scan''
   \<and> 0 < monitor_pid monitored_world
   \<and> main monitored_world ''tup'' [''scan'', ''--version''] = (0, [Stdout (''tup v0.8'' @ nl)])"
  by (simp add: main_eval monitored_world_def command_word_def is_flag_def)

lemma link_exists_values: "fst (link_exists w cmd argv) \<in> {- 1, 0, 1}"
  by (auto simp: link_exists_def Let_def tup_db_link_exists_def
      split: if_splits list.splits option.splits)

lemma finish_value:
  assumes "clear \<longrightarrow> \<not> fails w ''tup_db_begin'' \<and> \<not> fails w ''tup_db_commit''"
  shows "fst (finish w rc clear evs) =
     (if fails w ''tup_cleanup'' \<or> rc < 0 \<or>
         (clear \<and> ext w ''tup_db_config_set_int'' [''AUTOUPDATE_PID'', ''-1''] < 0)
      then 1 else rc)"
  using assms by (auto simp: finish_def Let_def)

text \<open>The style of link that \<^verbatim>\<open>normal_exists\<close> or \<^verbatim>\<open>sticky_exists\<close> asks for.\<close>

definition asked_style :: "string \<Rightarrow> link_style" where
  "asked_style cmd = (if cmd = ''normal_exists'' then TUP_LINK_NORMAL else TUP_LINK_STICKY)"

lemma link_exists_one:
  assumes c: "cmd = ''normal_exists'' \<or> cmd = ''sticky_exists''"
  shows "(fst (link_exists w cmd [d1, n1, d2, n2]) = 1) =
     (\<not> fails w ''tup_db_begin'' \<and> \<not> fails w ''tup_db_select_tent'' \<and>
      \<not> fails w ''tup_db_link_exists'' \<and> \<not> fails w ''tup_db_commit'' \<and>
      0 \<le> find_dir_tupid w d1 \<and> 0 \<le> find_dir_tupid w d2 \<and>
      (\<exists>da a db b.
         tup_entry_add w (find_dir_tupid w d1) = Some da \<and> tup_db_select_tent w da n1 = Some a \<and>
         tup_entry_add w (find_dir_tupid w d2) = Some db \<and> tup_db_select_tent w db n2 = Some b \<and>
         (tupid a, tupid b, asked_style cmd) \<in> set (link_table w)))"
    (is "?l = ?r")
proof
  assume l: ?l
  from c have u: "(cmd \<noteq> ''normal_exists'' \<and> cmd \<noteq> ''sticky_exists'') = False" by auto
  from l show ?r
    by (simp add: link_exists_def Let_def tup_db_link_exists_def asked_style_def u
        split: if_splits option.splits)
next
  assume r: ?r
  then obtain da a db b where
    f: "\<not> fails w ''tup_db_begin''" "\<not> fails w ''tup_db_select_tent''"
       "\<not> fails w ''tup_db_link_exists''" "\<not> fails w ''tup_db_commit''"
       "\<not> find_dir_tupid w d1 < 0" "\<not> find_dir_tupid w d2 < 0"
    and e: "tup_entry_add w (find_dir_tupid w d1) = Some da" "tup_db_select_tent w da n1 = Some a"
       "tup_entry_add w (find_dir_tupid w d2) = Some db" "tup_db_select_tent w db n2 = Some b"
    and k: "(tupid a, tupid b, asked_style cmd) \<in> set (link_table w)"
    by auto
  from c have u: "(cmd \<noteq> ''normal_exists'' \<and> cmd \<noteq> ''sticky_exists'') = False" by auto
  from k show ?l
    by (simp add: link_exists_def Let_def tup_db_link_exists_def asked_style_def u f e)
qed

lemma dispatch_link_exists:
  assumes "cmd = ''normal_exists'' \<or> cmd = ''sticky_exists''"
  shows "fst (dispatch w cmd argv orig) =
     Inr (if fst (link_exists w cmd argv) = 1 then 11 else fst (link_exists w cmd argv), False)"
proof -
  obtain r es where le: "link_exists w cmd argv = (r, es)" by (cases "link_exists w cmd argv") auto
  from assms have n: "cmd \<noteq> ''monitor''" "cmd \<noteq> ''entry''" "cmd \<noteq> ''type''" "cmd \<noteq> ''tupid''"
    "cmd \<noteq> ''inputs''" "cmd \<noteq> ''graph''" "cmd \<noteq> ''compiledb''" "cmd \<noteq> ''commandline''"
    "cmd \<noteq> ''scan''" "cmd \<noteq> ''link''" "cmd \<noteq> ''read''" "cmd \<noteq> ''parse''" "cmd \<noteq> ''upd''"
    "cmd \<noteq> ''refactor''" "cmd \<noteq> ''ref''" "cmd \<noteq> ''autoupdate''" "cmd \<noteq> ''autoparse''"
    "cmd \<noteq> ''todo''" "cmd \<noteq> ''variant''" "cmd \<noteq> ''node_exists''"
    by auto
  from assms have y: "(cmd = ''normal_exists'' \<or> cmd = ''sticky_exists'') = True" by simp
  show ?thesis
    by (simp add: dispatch_def Let_def n y le)
qed

lemma main_link_exists:
  assumes s: "setup_ok w as"
    and c: "command_of as = ''normal_exists'' \<or> command_of as = ''sticky_exists''"
  shows "(fst (main w tupexe as) = 11) =
     (\<not> fails w ''tup_cleanup'' \<and> fst (link_exists w (command_of as) (arguments_of as)) = 1)"
proof -
  obtain res evs1 where d: "dispatch w (command_of as) (arguments_of as) as = (res, evs1)"
    by (cases "dispatch w (command_of as) (arguments_of as) as") auto
  let ?r = "fst (link_exists w (command_of as) (arguments_of as))"
  from dispatch_link_exists [OF c, of w "arguments_of as" as] d
  have res: "res = Inr (if ?r = 1 then 11 else ?r, False)" by simp
  have v: "?r \<in> {- 1, 0, 1}" by (rule link_exists_values)
  have "fst (main w tupexe as) =
      fst (finish w (if ?r = 1 then 11 else ?r) False (debug_calls as @ evs1))"
    using main_prelude_setup_ok [OF s, of tupexe] d res by (simp add: main_def)
  also have "\<dots> = (if fails w ''tup_cleanup'' \<or> (if ?r = 1 then 11 else ?r) < 0 then 1
                    else (if ?r = 1 then 11 else ?r))"
    using finish_value [of False w "if ?r = 1 then 11 else ?r" "debug_calls as @ evs1"] by simp
  finally show ?thesis using v by auto
qed

text \<open>
  C2, as amended. \<^verbatim>\<open>main\<close> returns 0 when help or the version is asked for. Outside
  a sub-process, \<^verbatim>\<open>version\<close>, \<^verbatim>\<open>server\<close> and \<^verbatim>\<open>generate\<close> return 0, or 1 when dropping the
  privileges or \<^verbatim>\<open>generate\<close> fails. For a
  command of the chain that follows \<^verbatim>\<open>tup_init\<close>, outside a sub-process, it returns 1
  when \<^verbatim>\<open>tup_option_process_ini\<close> or \<^verbatim>\<open>tup_init\<close> fails; when the set-up succeeds and
  the run reaches the last return (for \<^verbatim>\<open>autoupdate\<close> and \<^verbatim>\<open>autoparse\<close>: the transaction
  that clears the pid begins and commits), it returns 1 if the final cleanup failed,
  the command returned a negative value or the autoupdate pid could not be cleared,
  and the command's value otherwise, so 0 exactly for a success. For \<^verbatim>\<open>normal_exists\<close>
  and \<^verbatim>\<open>sticky_exists\<close> with two pairs of a directory and a name, it returns 11
  exactly when the final cleanup and the calls of the store succeed, both directories
  are known, and the link of the style asked for, from the node of the first name in
  the first directory to the node of the second name in the second directory, is in
  the store.
\<close>

theorem exit_code_convention:
  "(help_asked as \<or> version_asked (arguments_of as) \<longrightarrow> fst (main w tupexe as) = 0)
   \<and> (\<not> help_asked as \<and> \<not> version_asked (arguments_of as) \<and> command_of as \<notin> set early_commands \<and>
        \<not> vardict w \<and> (ext w ''tup_option_process_ini'' [] \<noteq> 0 \<or> ext w ''tup_init'' as < 0) \<longrightarrow>
          fst (main w tupexe as) = 1)
   \<and> (\<not> help_asked as \<and> \<not> version_asked (arguments_of as) \<and> \<not> vardict w \<and>
        command_of as = ''version'' \<longrightarrow>
          fst (main w tupexe as) = (if fails w ''tup_drop_privs'' then 1 else 0))
   \<and> (\<not> help_asked as \<and> \<not> version_asked (arguments_of as) \<and> \<not> vardict w \<and>
        command_of as = ''server'' \<longrightarrow> fst (main w tupexe as) = 0)
   \<and> (\<not> help_asked as \<and> \<not> version_asked (arguments_of as) \<and> \<not> vardict w \<and>
        command_of as = ''generate'' \<longrightarrow>
          fst (main w tupexe as) = (if ext w ''generate'' (arguments_of as) < 0 then 1 else 0))
   \<and> (setup_ok w as \<and> dispatch w (command_of as) (arguments_of as) as = (Inr (rc, clear), evs1) \<and>
        (clear \<longrightarrow> \<not> fails w ''tup_db_begin'' \<and> \<not> fails w ''tup_db_commit'') \<longrightarrow>
          fst (main w tupexe as) =
            (if fails w ''tup_cleanup'' \<or> rc < 0 \<or>
                (clear \<and> ext w ''tup_db_config_set_int'' [''AUTOUPDATE_PID'', ''-1''] < 0)
             then 1 else rc))
   \<and> (setup_ok w as \<and> (command_of as = ''normal_exists'' \<or> command_of as = ''sticky_exists'') \<and>
        arguments_of as = [d1, n1, d2, n2] \<longrightarrow>
          (fst (main w tupexe as) = 11) =
            (\<not> fails w ''tup_cleanup'' \<and> \<not> fails w ''tup_db_begin'' \<and>
             \<not> fails w ''tup_db_select_tent'' \<and> \<not> fails w ''tup_db_link_exists'' \<and>
             \<not> fails w ''tup_db_commit'' \<and> 0 \<le> find_dir_tupid w d1 \<and> 0 \<le> find_dir_tupid w d2 \<and>
             (\<exists>da a db b.
                tup_entry_add w (find_dir_tupid w d1) = Some da \<and> tup_db_select_tent w da n1 = Some a \<and>
                tup_entry_add w (find_dir_tupid w d2) = Some db \<and> tup_db_select_tent w db n2 = Some b \<and>
                (tupid a, tupid b, asked_style (command_of as)) \<in> set (link_table w))))"
proof (intro conjI impI)
  assume "help_asked as \<or> version_asked (arguments_of as)"
  then show "fst (main w tupexe as) = 0"
    by (auto simp: main_def main_prelude_args main_setup_version)
next
  assume h: "\<not> help_asked as \<and> \<not> version_asked (arguments_of as) \<and> command_of as \<notin> set early_commands \<and>
        \<not> vardict w \<and> (ext w ''tup_option_process_ini'' [] \<noteq> 0 \<or> ext w ''tup_init'' as < 0)"
  then have "main_setup w as (command_of as) (arguments_of as) (debug_calls as) = Inl (1, debug_calls as)"
    using main_setup_chain [of "command_of as" "arguments_of as" w as "debug_calls as"] by auto
  with h show "fst (main w tupexe as) = 1"
    by (simp add: main_def main_prelude_args)
next
  assume h: "\<not> help_asked as \<and> \<not> version_asked (arguments_of as) \<and> \<not> vardict w \<and>
        command_of as = ''version''"
  then have v: "(arguments_of as \<noteq> [] \<and> (hd (arguments_of as) = ''--version'' \<or> hd (arguments_of as) = ''-v'')) = False"
    by (simp add: version_asked_def)
  from h show "fst (main w tupexe as) = (if fails w ''tup_drop_privs'' then 1 else 0)"
    by (simp add: main_def main_prelude_args main_setup_def v)
next
  assume h: "\<not> help_asked as \<and> \<not> version_asked (arguments_of as) \<and> \<not> vardict w \<and>
        command_of as = ''server''"
  then have v: "(arguments_of as \<noteq> [] \<and> (hd (arguments_of as) = ''--version'' \<or> hd (arguments_of as) = ''-v'')) = False"
    by (simp add: version_asked_def)
  from h show "fst (main w tupexe as) = 0"
    by (simp add: main_def main_prelude_args main_setup_def v)
next
  assume h: "\<not> help_asked as \<and> \<not> version_asked (arguments_of as) \<and> \<not> vardict w \<and>
        command_of as = ''generate''"
  then have v: "(arguments_of as \<noteq> [] \<and> (hd (arguments_of as) = ''--version'' \<or> hd (arguments_of as) = ''-v'')) = False"
    by (simp add: version_asked_def)
  from h show "fst (main w tupexe as) = (if ext w ''generate'' (arguments_of as) < 0 then 1 else 0)"
    by (simp add: main_def main_prelude_args main_setup_def v)
next
  assume h: "setup_ok w as \<and> dispatch w (command_of as) (arguments_of as) as = (Inr (rc, clear), evs1) \<and>
        (clear \<longrightarrow> \<not> fails w ''tup_db_begin'' \<and> \<not> fails w ''tup_db_commit'')"
  then have c: "clear \<longrightarrow> \<not> fails w ''tup_db_begin'' \<and> \<not> fails w ''tup_db_commit''" by simp
  from h main_prelude_setup_ok [of w as tupexe] finish_value [OF c, of rc "debug_calls as @ evs1"]
  show "fst (main w tupexe as) =
            (if fails w ''tup_cleanup'' \<or> rc < 0 \<or>
                (clear \<and> ext w ''tup_db_config_set_int'' [''AUTOUPDATE_PID'', ''-1''] < 0)
             then 1 else rc)"
    by (simp add: main_def)
next
  assume h: "setup_ok w as \<and> (command_of as = ''normal_exists'' \<or> command_of as = ''sticky_exists'') \<and>
        arguments_of as = [d1, n1, d2, n2]"
  then have s: "setup_ok w as"
    and c: "command_of as = ''normal_exists'' \<or> command_of as = ''sticky_exists''"
    and a: "arguments_of as = [d1, n1, d2, n2]" by simp_all
  show "(fst (main w tupexe as) = 11) =
            (\<not> fails w ''tup_cleanup'' \<and> \<not> fails w ''tup_db_begin'' \<and>
             \<not> fails w ''tup_db_select_tent'' \<and> \<not> fails w ''tup_db_link_exists'' \<and>
             \<not> fails w ''tup_db_commit'' \<and> 0 \<le> find_dir_tupid w d1 \<and> 0 \<le> find_dir_tupid w d2 \<and>
             (\<exists>da a db b.
                tup_entry_add w (find_dir_tupid w d1) = Some da \<and> tup_db_select_tent w da n1 = Some a \<and>
                tup_entry_add w (find_dir_tupid w d2) = Some db \<and> tup_db_select_tent w db n2 = Some b \<and>
                (tupid a, tupid b, asked_style (command_of as)) \<in> set (link_table w)))"
    unfolding main_link_exists [OF s c, of tupexe] a link_exists_one [OF c, of w d1 n1 d2 n2]
    by blast
qed

theorem exit_code_convention_witness:
  "setup_ok demo_world [''normal_exists'', ''.'', ''a.c'', ''.'', ''cc a.c'']
   \<and> command_of [''normal_exists'', ''.'', ''a.c'', ''.'', ''cc a.c''] = ''normal_exists''
   \<and> arguments_of [''normal_exists'', ''.'', ''a.c'', ''.'', ''cc a.c''] = [''.'', ''a.c'', ''.'', ''cc a.c'']
   \<and> tup_entry_add demo_world (find_dir_tupid demo_world ''.'') =
        Some \<lparr>tupid = 1, dt = 0, name = ''.'', type = TUP_NODE_DIR\<rparr>
   \<and> tup_db_select_tent demo_world \<lparr>tupid = 1, dt = 0, name = ''.'', type = TUP_NODE_DIR\<rparr> ''a.c'' =
        Some \<lparr>tupid = 2, dt = 1, name = ''a.c'', type = TUP_NODE_FILE\<rparr>
   \<and> tup_db_select_tent demo_world \<lparr>tupid = 1, dt = 0, name = ''.'', type = TUP_NODE_DIR\<rparr> ''cc a.c'' =
        Some \<lparr>tupid = 3, dt = 1, name = ''cc a.c'', type = TUP_NODE_CMD\<rparr>
   \<and> (2, 3, asked_style ''normal_exists'') \<in> set (link_table demo_world)
   \<and> fst (main demo_world ''tup'' [''normal_exists'', ''.'', ''a.c'', ''.'', ''cc a.c'']) = 11
   \<and> fst (main demo_world ''tup'' [''normal_exists'', ''.'', ''a.c'', ''.'', ''a.o'']) = 0
   \<and> fst (main demo_world ''tup'' [''normal_exists'', ''--version'']) = 0"
proof -
  let ?as = "[''normal_exists'', ''.'', ''a.c'', ''.'', ''cc a.c'']"
  let ?bs = "[''normal_exists'', ''.'', ''a.c'', ''.'', ''a.o'']"
  let ?d = "\<lparr>tupid = 1, dt = 0, name = ''.'', type = TUP_NODE_DIR\<rparr>"
  have c: "command_of ?as = ''normal_exists''" "command_of ?bs = ''normal_exists''"
    "command_of [''normal_exists'', ''--version''] = ''normal_exists''"
    by (simp_all add: command_of_def command_word_def is_flag_def)
  have a: "arguments_of ?as = [''.'', ''a.c'', ''.'', ''cc a.c'']"
    "arguments_of ?bs = [''.'', ''a.c'', ''.'', ''a.o'']"
    "arguments_of [''normal_exists'', ''--version''] = [''--version'']"
    by (simp_all add: arguments_of_def after_command_def command_word_def is_flag_def)
  have s: "setup_ok demo_world ?as" "setup_ok demo_world ?bs"
    by (simp_all add: setup_ok_def c a help_asked_def version_asked_def early_commands_def demo_world_def)
  have f: "\<not> fails demo_world ''tup_cleanup''" "\<not> fails demo_world ''tup_db_begin''"
    "\<not> fails demo_world ''tup_db_select_tent''" "\<not> fails demo_world ''tup_db_link_exists''"
    "\<not> fails demo_world ''tup_db_commit''" "0 \<le> find_dir_tupid demo_world ''.''"
    by (simp_all add: fails_def demo_world_def)
  have e: "tup_entry_add demo_world (find_dir_tupid demo_world ''.'') = Some ?d"
    "tup_db_select_tent demo_world ?d ''a.c'' = Some \<lparr>tupid = 2, dt = 1, name = ''a.c'', type = TUP_NODE_FILE\<rparr>"
    "tup_db_select_tent demo_world ?d ''cc a.c'' = Some \<lparr>tupid = 3, dt = 1, name = ''cc a.c'', type = TUP_NODE_CMD\<rparr>"
    "tup_db_select_tent demo_world ?d ''a.o'' = Some \<lparr>tupid = 5, dt = 1, name = ''a.o'', type = TUP_NODE_GENERATED\<rparr>"
    by (simp_all add: tup_entry_add_def tup_db_select_tent_def demo_world_def)
  have k: "(2, 3, asked_style ''normal_exists'') \<in> set (link_table demo_world)"
    by (simp add: asked_style_def demo_world_def)
  have d: "dispatch demo_world (command_of ?bs) (arguments_of ?bs) ?bs = (Inr (0, False), [])"
    unfolding c a by (simp add: main_eval)
  have v: "version_asked (arguments_of [''normal_exists'', ''--version''])"
    by (simp add: a version_asked_def)
  note t1 = exit_code_convention [of ?as demo_world "''tup''" 0 False "[]" "''.''" "''a.c''" "''.''" "''cc a.c''"]
  note t2 = exit_code_convention [of ?bs demo_world "''tup''" 0 False "[]" "''.''" "''a.c''" "''.''" "''a.o''"]
  note t3 = exit_code_convention [of "[''normal_exists'', ''--version'']" demo_world "''tup''" 0 False "[]" "''.''" "''a.c''" "''.''" "''a.o''"]
  from t1 s(1) c(1) a(1) f e k
  have r1: "fst (main demo_world ''tup'' ?as) = 11" by force
  from t2 s(2) d f
  have r2: "fst (main demo_world ''tup'' ?bs) = 0" by simp
  from t3 v
  have r3: "fst (main demo_world ''tup'' [''normal_exists'', ''--version'']) = 0" by simp
  show ?thesis
    by (intro conjI) (rule s(1), rule c(1), rule a(1), rule e(1), rule e(2), rule e(3), rule k,
        rule r1, rule r2, rule r3)
qed

text \<open>
  C2 as stated fails: with the queried link present (\<^verbatim>\<open>link_exists\<close> returns 1) and a
  failing \<^verbatim>\<open>tup_cleanup\<close>, \<^verbatim>\<open>main\<close> returns 1, not 11.
\<close>

theorem exit_code_11_counterexample:
  "link_exists failing_cleanup_world ''normal_exists'' [''.'', ''a.c'', ''.'', ''cc a.c''] = (1, [])
   \<and> main failing_cleanup_world ''tup'' [''normal_exists'', ''.'', ''a.c'', ''.'', ''cc a.c''] = (1, [])"
  by (simp add: main_eval failing_cleanup_world_def)

lemma scan_arg_cmd_known:
  "scan_arg a x (Some c, k, sh, evs) = (Some c, k, snd (snd (scan_arg a y (cmd, j, sh, evs))))"
  by (simp add: scan_arg_def Let_def)

lemma scan_argv_cmd_known:
  "scan_argv as x (Some c, k, sh, evs) =
     (Some c, k, snd (snd (scan_argv as y (cmd, j, sh, evs))))"
proof (induction as arbitrary: x y cmd j sh evs)
  case Nil
  then show ?case by simp
next
  case (Cons a as)
  obtain c1 k1 s1 e1 where st: "scan_arg a y (cmd, j, sh, evs) = (c1, k1, s1, e1)"
    by (cases "scan_arg a y (cmd, j, sh, evs)") auto
  have "scan_arg a x (Some c, k, sh, evs) = (Some c, k, s1, e1)"
    using scan_arg_cmd_known [of a x c k sh evs y cmd j] st by simp
  with st Cons.IH [of "Suc x" s1 e1 "Suc y" c1 k1] show ?case by simp
qed

lemma scan_argv_upd:
  assumes "scan_argv as 0 (None, 0, False, []) = (cmd0, k, sh, evs)"
  shows "scan_argv (''upd'' # as) 0 (None, 0, False, []) = (Some ''upd'', 0, sh, evs)"
proof -
  have "scan_arg ''upd'' 0 (None, 0, False, []) = (Some ''upd'', 0, False, [])"
    by (simp add: scan_arg_def)
  then show ?thesis
    using scan_argv_cmd_known [of as "Suc 0" "''upd''" 0 False "[]" 0 None 0] assms by simp
qed

lemma dispatch_unknown:
  assumes "c \<notin> set secondary_commands"
  shows "dispatch w c argv orig_argv = (Inr (updater w orig_argv 0, False), [Call_updater orig_argv 0])"
  using assms by (simp add: secondary_commands_def dispatch_def call_updater_def Let_def)

lemma dispatch_upd:
  "dispatch w ''upd'' argv orig_argv = (Inr (updater w argv 0, False), [Call_updater argv 0])"
  by (simp add: dispatch_def call_updater_def Let_def)

lemma main_setup_unknown:
  assumes "c \<notin> set secondary_commands" and "\<not> version_asked argv" and "\<not> vardict w"
  shows "main_setup w orig c argv evs =
     (if ext w ''tup_option_process_ini'' [] \<noteq> 0 then Inl (1, evs)
      else if ext w ''tup_init'' orig < 0 then Inl (1, evs)
      else Inr (c, argv, evs))"
proof -
  from assms(2) have v: "(argv \<noteq> [] \<and> (hd argv = ''--version'' \<or> hd argv = ''-v'')) = False"
    by (simp add: version_asked_def)
  from assms(1) have n: "c \<noteq> ''varsed''" "c \<noteq> ''init''" "c \<noteq> ''version''" "c \<noteq> ''generate''"
    "c \<noteq> ''privileged''" "c \<noteq> ''server''" "c \<noteq> ''stop''" "c \<noteq> ''waitmon''"
    by (auto simp: secondary_commands_def)
  show ?thesis
    using assms(3) by (simp add: main_setup_def v n)
qed

lemma main_setup_upd:
  assumes "\<not> version_asked argv" and "\<not> vardict w"
  shows "main_setup w orig ''upd'' argv evs =
     (if ext w ''tup_option_process_ini'' [] \<noteq> 0 then Inl (1, evs)
      else if ext w ''tup_init'' orig < 0 then Inl (1, evs)
      else Inr (''upd'', argv, evs))"
proof -
  from assms(1) have v: "(argv \<noteq> [] \<and> (hd argv = ''--version'' \<or> hd argv = ''-v'')) = False"
    by (simp add: version_asked_def)
  show ?thesis
    using assms(2) by (simp add: main_setup_def v)
qed

text \<open>
  C9, as amended. For an argument list without a help switch whose command word, if
  there is one, is not a command that \<^verbatim>\<open>main\<close> knows and is followed by the version
  switch exactly when the whole list starts with it, outside a sub-process and with
  \<^verbatim>\<open>tup_init\<close> failing on both argument vectors or on neither, \<^verbatim>\<open>tup ARGS\<close> and
  \<^verbatim>\<open>tup upd ARGS\<close> return the same value and do the same; when the version is not
  asked for and the set-up succeeds, both call the updater on the arguments with
  phase 0.
\<close>

theorem upd_is_the_default_command:
  assumes "scan_argv as 0 (None, 0, False, []) = (cmd0, k, False, evs)"
    and "cmd0 \<noteq> None \<longrightarrow>
           the cmd0 \<notin> set secondary_commands \<and> version_asked (drop (k + 1) as) = version_asked as"
    and "\<not> vardict w"
    and "(ext w ''tup_init'' as < 0) = (ext w ''tup_init'' (''upd'' # as) < 0)"
  shows "main w tupexe as = main w tupexe (''upd'' # as) \<and>
         (\<not> version_asked as \<and> ext w ''tup_option_process_ini'' [] = 0 \<and> \<not> ext w ''tup_init'' as < 0 \<longrightarrow>
            snd (main w tupexe as) = evs @ [Call_updater as 0])"
proof -
  have u: "scan_argv (''upd'' # as) 0 (None, 0, False, []) = (Some ''upd'', 0, False, evs)"
    by (rule scan_argv_upd [OF assms(1)])
  have pu: "main_prelude w tupexe (''upd'' # as) = main_setup w (''upd'' # as) ''upd'' as evs"
    by (simp add: main_prelude_def u del: scan_argv.simps)
  define argv where "argv = drop (k + 1) as"
  have pl: "main_prelude w tupexe as =
      (case cmd0 of None \<Rightarrow> main_setup w as ''upd'' as evs | Some c \<Rightarrow> main_setup w as c argv evs)"
    unfolding argv_def by (simp add: main_prelude_def assms(1))
  show ?thesis
  proof (cases "version_asked as")
    case True
    with assms(2) have "cmd0 \<noteq> None \<longrightarrow> version_asked argv" by (simp add: argv_def)
    with True pl pu show ?thesis
      by (cases cmd0) (simp_all add: main_def main_setup_version)
  next
    case False
    have r: "main_prelude w tupexe (''upd'' # as) =
       (if ext w ''tup_option_process_ini'' [] \<noteq> 0 then Inl (1, evs)
        else if ext w ''tup_init'' (''upd'' # as) < 0 then Inl (1, evs)
        else Inr (''upd'', as, evs))"
      using pu main_setup_upd [OF False assms(3)] by simp
    show ?thesis
    proof (cases cmd0)
      case None
      have l: "main_prelude w tupexe as =
       (if ext w ''tup_option_process_ini'' [] \<noteq> 0 then Inl (1, evs)
        else if ext w ''tup_init'' as < 0 then Inl (1, evs)
        else Inr (''upd'', as, evs))"
        using pl None main_setup_upd [OF False assms(3)] by simp
      from l r assms(4) False show ?thesis
        by (simp add: main_def dispatch_upd finish_def Let_def)
    next
      case (Some c)
      with assms(2) False have c: "c \<notin> set secondary_commands" and v: "\<not> version_asked argv"
        by (auto simp: argv_def)
      have l: "main_prelude w tupexe as =
       (if ext w ''tup_option_process_ini'' [] \<noteq> 0 then Inl (1, evs)
        else if ext w ''tup_init'' as < 0 then Inl (1, evs)
        else Inr (c, argv, evs))"
        using pl Some main_setup_unknown [OF c v assms(3)] by simp
      from l r assms(4) False show ?thesis
        by (simp add: main_def dispatch_upd dispatch_unknown [OF c] finish_def Let_def)
    qed
  qed
qed

theorem upd_is_the_default_command_witness:
  "scan_argv [''-k'', ''a.o''] 0 (None, 0, False, []) = (Some ''a.o'', 1, False, [])
   \<and> ''a.o'' \<notin> set secondary_commands
   \<and> version_asked (drop (1 + 1) [''-k'', ''a.o'']) = version_asked [''-k'', ''a.o'']
   \<and> \<not> vardict demo_world
   \<and> main demo_world ''tup'' [''-k'', ''a.o''] = main demo_world ''tup'' [''upd'', ''-k'', ''a.o'']
   \<and> snd (main demo_world ''tup'' [''-k'', ''a.o'']) = [Call_updater [''-k'', ''a.o''] 0]"
proof -
  have s: "scan_argv [''-k'', ''a.o''] 0 (None, 0, False, []) = (Some ''a.o'', 1, False, [])"
    by (simp add: main_eval)
  have k: "''a.o'' \<notin> set secondary_commands" by (simp add: secondary_commands_def)
  have v: "version_asked (drop (1 + 1) [''-k'', ''a.o'']) = version_asked [''-k'', ''a.o'']"
    by (simp add: version_asked_def)
  have v': "\<not> version_asked [''-k'', ''a.o'']" by (simp add: version_asked_def)
  have d: "\<not> vardict demo_world" by (simp add: demo_world_def)
  have i: "(ext demo_world ''tup_init'' [''-k'', ''a.o''] < 0) =
           (ext demo_world ''tup_init'' (''upd'' # [''-k'', ''a.o'']) < 0)" by (simp add: demo_world_def)
  have o: "ext demo_world ''tup_option_process_ini'' [] = 0" by (simp add: demo_world_def)
  have t: "\<not> ext demo_world ''tup_init'' [''-k'', ''a.o''] < 0" by (simp add: demo_world_def)
  have h: "Some ''a.o'' \<noteq> None \<longrightarrow>
           the (Some ''a.o'') \<notin> set secondary_commands \<and>
           version_asked (drop (1 + 1) [''-k'', ''a.o'']) = version_asked [''-k'', ''a.o'']"
    using k v by simp
  note r = upd_is_the_default_command [OF s h d i, of "''tup''"]
  from r [THEN conjunct2] v' o t
  have e2: "snd (main demo_world ''tup'' [''-k'', ''a.o'']) = [Call_updater [''-k'', ''a.o''] 0]"
    by simp
  show ?thesis
    by (intro conjI) (rule s, rule k, rule v, rule d, rule r [THEN conjunct1], rule e2)
qed

text \<open>
  C9 as stated fails: \<^verbatim>\<open>tup a.o --version\<close> prints the version and returns 0, while
  \<^verbatim>\<open>tup upd a.o --version\<close> runs the updater and returns its value.
\<close>

theorem upd_is_the_default_command_counterexample:
  "main failing_update_world ''tup'' [''a.o'', ''--version''] = (0, [Stdout (''tup v0.8'' @ nl)])
   \<and> main failing_update_world ''tup'' [''upd'', ''a.o'', ''--version''] =
       (3, [Call_updater [''a.o'', ''--version''] 0])"
  by (simp add: main_eval failing_update_world_def)

section \<open>Properties of the variant command\<close>






definition config_file :: "world \<Rightarrow> fs \<Rightarrow> string \<Rightarrow> string list option" where
  "config_file w f p = namei f MAXSYMLINKS (tup_top w) (split_path (sub_dir w) @ split_path p)"






















definition linked_world :: world where
  "linked_world =
     demo_world\<lparr>fsys := [([''home'', ''u'', ''proj'', ''foo.config''], Fs_file),
                         ([''home'', ''u'', ''proj'', ''build-foo''], Fs_symlink ''/tmp/empty''),
                         ([''tmp''], Fs_dir), ([''tmp'', ''empty''], Fs_dir)]\<rparr>"

lemmas variant_eval =
  variant_def create_variant_def variant_dirname_def variant_linkpath_def dir_empty_def dir_at_def
  lookup_path_def is_dir_def dir_entries_def MAXSYMLINKS_def fails_def demo_world_def Let_def



text \<open>
  When \<^verbatim>\<open>build-foo\<close> is a symbolic link to an empty directory, the command succeeds
  and puts \<^verbatim>\<open>tup.config\<close> into that directory, from where its target does not lead to
  the config file.
\<close>

lemma variant_follows_link:
  "variant linked_world [''foo.config''] =
     (0, [Stdout (''tup: Added variant '' @ sq @ ''build-foo'' @ sq @ '' using config file '' @ sq @
            ''foo.config'' @ sq @ nl)],
      fsys linked_world @ [([''tmp'', ''empty'', ''tup.config''], Fs_symlink ''../foo.config'')])
   \<and> lookup_path (snd (snd (variant linked_world [''foo.config''])))
        [''tmp'', ''empty''] ''../foo.config'' = None
   \<and> config_file linked_world (snd (snd (variant linked_world [''foo.config''])))
        ''foo.config'' = Some [''home'', ''u'', ''proj'', ''foo.config'']"
  by (simp add: variant_eval linked_world_def config_file_def)

section \<open>Properties of the graph command\<close>

subsection \<open>The graph as sets\<close>

text \<open>
  The graph as sets: the ids that are nodes, and those whose node is marked
  \<^verbatim>\<open>expanded\<close>. \<open>skips_at\<close> is the test of the three early returns of \<^verbatim>\<open>graph_cb\<close> with the
  value of \<^verbatim>\<open>g->cur != NULL\<close> as a parameter, and \<open>tents_ok\<close> says that each node holds the
  entry that the store has for its id.
\<close>

definition nodes_of :: "graph \<Rightarrow> tupid_t set" where
  "nodes_of g = fst ` set (node_root g)"

definition expanded_of :: "graph \<Rightarrow> tupid_t set" where
  "expanded_of g = {i. is_expanded g i}"

definition skips_at :: "world \<Rightarrow> gopts \<Rightarrow> bool \<Rightarrow> tup_entry \<Rightarrow> bool" where
  "skips_at w opt cur_set t =
     ((\<not> show_ghosts opt \<and> type t = TUP_NODE_GHOST)
      \<or> (\<not> show_env opt \<and> (tupid t = env_dt w \<or> dt t = env_dt w))
      \<or> (\<not> show_dirs opt \<and> cur_set \<and>
           (type t = TUP_NODE_DIR \<or> type t = TUP_NODE_GENERATED_DIR)))"

definition tents_ok :: "world \<Rightarrow> graph \<Rightarrow> bool" where
  "tents_ok w g = (\<forall>(k, n) \<in> set (node_root g). tup_entry_add w k = Some (tent n))"

definition cur_set :: "graph \<Rightarrow> bool" where
  "cur_set g = (cur g \<noteq> None)"

lemma graph_cb_skips_at: "graph_cb_skips w opt g t = skips_at w opt (cur_set g) t"
  by (simp add: graph_cb_skips_def skips_at_def cur_set_def)

lemma find_node_None_iff: "find_node g i = None \<longleftrightarrow> i \<notin> nodes_of g"
  by (simp add: find_node_def nodes_of_def map_of_eq_None_iff)

lemma expanded_in_nodes: "is_expanded g i \<Longrightarrow> i \<in> nodes_of g"
  using find_node_None_iff [of g i] by (auto simp: is_expanded_def split: option.splits)

lemma nodes_of_create_node [simp]: "nodes_of (create_node g t) = insert (tupid t) (nodes_of g)"
  by (auto simp: nodes_of_def create_node_def)

lemma nodes_of_set_expanded [simp]: "nodes_of (set_expanded g i) = nodes_of g"
  by (force simp: nodes_of_def set_expanded_def split: if_splits)

lemma nodes_of_upd [simp]:
  "nodes_of (g\<lparr>node_list := l\<rparr>) = nodes_of g"
  "nodes_of (g\<lparr>plist := p\<rparr>) = nodes_of g"
  "nodes_of (g\<lparr>cur := c\<rparr>) = nodes_of g"
  "nodes_of (g\<lparr>edges := e\<rparr>) = nodes_of g"
  by (simp_all add: nodes_of_def)

lemma nodes_of_enqueue [simp]: "nodes_of (enqueue g i) = nodes_of g"
  by (simp add: enqueue_def)

lemma is_expanded_enqueue:
  "is_expanded (enqueue g i) j = (if j = i then i \<in> nodes_of g else is_expanded g j)"
  using expanded_in_nodes [of g i]
  by (auto simp: enqueue_def is_expanded_set_expanded find_node_None_iff)

lemma plist_enqueue_eq: "plist (enqueue g i) = (if is_expanded g i then plist g else i # plist g)"
  by (simp add: enqueue_def node_insert_head_def set_expanded_def)

lemma enqueue_other [simp]: "cur (enqueue g i) = cur g" "edges (enqueue g i) = edges g"
  by (simp_all add: enqueue_def set_expanded_def)

lemma create_node_other [simp]:
  "cur (create_node g t) = cur g" "edges (create_node g t) = edges g" "plist (create_node g t) = plist g"
  by (simp_all add: create_node_def)

lemma tents_ok_upd [simp]:
  "tents_ok w (g\<lparr>node_list := l\<rparr>) = tents_ok w g"
  "tents_ok w (g\<lparr>plist := p\<rparr>) = tents_ok w g"
  "tents_ok w (g\<lparr>cur := c\<rparr>) = tents_ok w g"
  "tents_ok w (g\<lparr>edges := e\<rparr>) = tents_ok w g"
  by (simp_all add: tents_ok_def)

lemma tents_ok_create_node:
  "tents_ok w g \<Longrightarrow> tup_entry_add w (tupid t) = Some t \<Longrightarrow> tents_ok w (create_node g t)"
  by (auto simp: tents_ok_def create_node_def)

lemma tents_ok_set_expanded: "tents_ok w g \<Longrightarrow> tents_ok w (set_expanded g i)"
  by (auto simp: tents_ok_def set_expanded_def split: if_splits)

lemma tents_ok_enqueue: "tents_ok w g \<Longrightarrow> tents_ok w (enqueue g i)"
  by (simp add: enqueue_def tents_ok_set_expanded)

text \<open>What one call of the callback does to the graph.\<close>

lemma graph_cb_skipped: "graph_cb_skips w opt g t \<Longrightarrow> graph_cb w opt g t = g"
  by (simp add: graph_cb_def)

lemma graph_cb_kept:
  assumes "\<not> graph_cb_skips w opt g t"
  shows "nodes_of (graph_cb w opt g t) = insert (tupid t) (nodes_of g)"
    and "expanded_of (graph_cb w opt g t) = insert (tupid t) (expanded_of g)"
    and "plist (graph_cb w opt g t) = (if is_expanded g (tupid t) then plist g else tupid t # plist g)"
    and "edges (graph_cb w opt g t) =
           edges g @ (case cur g of None \<Rightarrow> [] | Some c \<Rightarrow> [(c, tupid t, TUP_LINK_NORMAL)])"
    and "cur (graph_cb w opt g t) = cur g"
proof -
  define g1 where "g1 = (case find_node g (tupid t) of Some n \<Rightarrow> g | None \<Rightarrow> create_node g t)"
  define g2 where "g2 = enqueue g1 (tupid t)"
  have r: "graph_cb w opt g t =
      (case cur g2 of Some c \<Rightarrow> create_edge g2 c (tupid t) TUP_LINK_NORMAL | None \<Rightarrow> g2)"
    unfolding g1_def g2_def graph_cb_def Let_def using assms by simp
  have n1: "nodes_of g1 = insert (tupid t) (nodes_of g)"
    using find_node_None_iff [of g "tupid t"] by (auto simp: g1_def split: option.splits)
  have e1: "is_expanded g1 j = is_expanded g j" for j
    by (simp add: g1_def split: option.splits)
  have c1: "cur g1 = cur g" "edges g1 = edges g" "plist g1 = plist g"
    by (simp_all add: g1_def split: option.splits)
  have e2: "is_expanded g2 j = (j = tupid t \<or> is_expanded g j)" for j
    by (simp add: g2_def is_expanded_enqueue n1 e1)
  have p2: "plist g2 = (if is_expanded g (tupid t) then plist g else tupid t # plist g)"
    by (simp add: g2_def plist_enqueue_eq e1 c1)
  have c2: "cur g2 = cur g" "edges g2 = edges g" "nodes_of g2 = insert (tupid t) (nodes_of g)"
    by (simp_all add: g2_def c1 n1)
  show "nodes_of (graph_cb w opt g t) = insert (tupid t) (nodes_of g)"
    by (simp add: r c2 create_edge_def split: option.splits)
  show "expanded_of (graph_cb w opt g t) = insert (tupid t) (expanded_of g)"
    by (auto simp: r e2 expanded_of_def create_edge_def split: option.splits)
  show "plist (graph_cb w opt g t) = (if is_expanded g (tupid t) then plist g else tupid t # plist g)"
    by (simp add: r p2 create_edge_def split: option.splits)
  show "edges (graph_cb w opt g t) =
           edges g @ (case cur g of None \<Rightarrow> [] | Some c \<Rightarrow> [(c, tupid t, TUP_LINK_NORMAL)])"
    by (simp add: r c2 create_edge_def split: option.splits)
  show "cur (graph_cb w opt g t) = cur g"
    by (simp add: r c2 create_edge_def split: option.splits)
qed

lemma graph_cb_cur [simp]: "cur (graph_cb w opt g t) = cur g"
  by (cases "graph_cb_skips w opt g t") (simp_all add: graph_cb_skipped graph_cb_kept)

lemma graph_cb_tents_ok:
  assumes "tents_ok w g" and "tup_entry_add w (tupid t) = Some t"
  shows "tents_ok w (graph_cb w opt g t)"
  using assms
  by (auto simp: graph_cb_def Let_def create_edge_def tents_ok_enqueue tents_ok_create_node
      split: option.splits)

lemma group_cb_effect:
  shows "nodes_of (build_graph_group_cb g t) = insert (tupid t) (nodes_of g)"
    and "expanded_of (build_graph_group_cb g t) = expanded_of g"
    and "plist (build_graph_group_cb g t) = plist g"
    and "edges (build_graph_group_cb g t) =
           edges g @ (case cur g of None \<Rightarrow> [] | Some c \<Rightarrow> [(c, tupid t, TUP_LINK_GROUP)])"
    and "cur (build_graph_group_cb g t) = cur g"
  using find_node_None_iff [of g "tupid t"]
  by (auto simp: build_graph_group_cb_def Let_def create_edge_def expanded_of_def
      split: option.splits)

lemma group_cb_tents_ok:
  assumes "tents_ok w g" and "tup_entry_add w (tupid t) = Some t"
  shows "tents_ok w (build_graph_group_cb g t)"
  using assms
  by (auto simp: build_graph_group_cb_def Let_def create_edge_def tents_ok_create_node
      split: option.splits)

subsection \<open>What the iterators do to the graph\<close>

text \<open>
  The ids of the entries of a list that \<^verbatim>\<open>graph_cb\<close> does not skip, and the edges of
  style normal from the node \<^verbatim>\<open>cur\<close>, if there is one, to a set of ids.
\<close>

definition kept_ids :: "world \<Rightarrow> gopts \<Rightarrow> bool \<Rightarrow> tup_entry list \<Rightarrow> tupid_t set" where
  "kept_ids w opt b ts = tupid ` {t \<in> set ts. \<not> skips_at w opt b t}"

lemma kept_ids_Nil [simp]: "kept_ids w opt b [] = {}"
  by (simp add: kept_ids_def)

lemma kept_ids_Cons:
  "kept_ids w opt b (t # ts) =
     (if skips_at w opt b t then kept_ids w opt b ts else insert (tupid t) (kept_ids w opt b ts))"
  by (auto simp: kept_ids_def)

definition normal_edges :: "tupid_t option \<Rightarrow> tupid_t set \<Rightarrow> (tupid_t \<times> tupid_t \<times> link_style) set" where
  "normal_edges c K = (case c of None \<Rightarrow> {} | Some a \<Rightarrow> (\<lambda>k. (a, k, TUP_LINK_NORMAL)) ` K)"

lemma normal_edges_simps [simp]:
  "normal_edges c {} = {}"
  "normal_edges c (insert k K) = (case c of None \<Rightarrow> {} | Some a \<Rightarrow> {(a, k, TUP_LINK_NORMAL)}) \<union> normal_edges c K"
  by (auto simp: normal_edges_def split: option.splits)

lemma graph_cb_step:
  "cur (graph_cb w opt g t) = cur g \<and>
   nodes_of (graph_cb w opt g t) = nodes_of g \<union> kept_ids w opt (cur_set g) [t] \<and>
   expanded_of (graph_cb w opt g t) = expanded_of g \<union> kept_ids w opt (cur_set g) [t] \<and>
   set (plist (graph_cb w opt g t)) =
     set (plist g) \<union> (kept_ids w opt (cur_set g) [t] - expanded_of g) \<and>
   (distinct (plist g) \<and> set (plist g) \<subseteq> expanded_of g \<longrightarrow> distinct (plist (graph_cb w opt g t))) \<and>
   set (edges (graph_cb w opt g t)) =
     set (edges g) \<union> normal_edges (cur g) (kept_ids w opt (cur_set g) [t])"
proof (cases "graph_cb_skips w opt g t")
  case True
  then show ?thesis
    by (simp add: graph_cb_skipped kept_ids_Cons graph_cb_skips_at [symmetric])
next
  case False
  note k = graph_cb_kept [OF False]
  from False have s: "\<not> skips_at w opt (cur_set g) t" by (simp add: graph_cb_skips_at)
  have m: "is_expanded g (tupid t) = (tupid t \<in> expanded_of g)" by (simp add: expanded_of_def)
  show ?thesis
    using s by (auto simp: k m kept_ids_Cons split: option.splits)
qed

lemma foldl_graph_cb:
  "cur (foldl (graph_cb w opt) g ts) = cur g \<and>
   nodes_of (foldl (graph_cb w opt) g ts) = nodes_of g \<union> kept_ids w opt (cur_set g) ts \<and>
   expanded_of (foldl (graph_cb w opt) g ts) = expanded_of g \<union> kept_ids w opt (cur_set g) ts \<and>
   set (plist (foldl (graph_cb w opt) g ts)) =
     set (plist g) \<union> (kept_ids w opt (cur_set g) ts - expanded_of g) \<and>
   (distinct (plist g) \<and> set (plist g) \<subseteq> expanded_of g \<longrightarrow> distinct (plist (foldl (graph_cb w opt) g ts))) \<and>
   set (edges (foldl (graph_cb w opt) g ts)) =
     set (edges g) \<union> normal_edges (cur g) (kept_ids w opt (cur_set g) ts)"
proof (induction ts arbitrary: g)
  case Nil
  then show ?case by simp
next
  case (Cons t ts)
  let ?g1 = "graph_cb w opt g t"
  let ?b = "cur_set g"
  note s = graph_cb_step [of w opt g t]
  note i = Cons.IH [of ?g1]
  from s have c: "cur ?g1 = cur g" by simp
  then have cs: "cur_set ?g1 = cur_set g" by (simp add: cur_set_def)
  have K: "kept_ids w opt ?b (t # ts) = kept_ids w opt ?b [t] \<union> kept_ids w opt ?b ts"
    by (auto simp: kept_ids_def)
  have E: "normal_edges (cur g) (A \<union> B) = normal_edges (cur g) A \<union> normal_edges (cur g) B" for A B
    by (auto simp: normal_edges_def split: option.splits)
  have d: "distinct (plist g) \<and> set (plist g) \<subseteq> expanded_of g \<Longrightarrow>
           distinct (plist ?g1) \<and> set (plist ?g1) \<subseteq> expanded_of ?g1"
    using s by auto
  show ?case
    apply (simp only: foldl_Cons K E)
    using s i c d
    apply (simp only: c cs)
    apply (intro conjI impI)
         apply simp
        apply blast
       apply blast
      apply blast
     apply blast
    apply blast
    done
qed

lemma foldl_graph_cb_tents_ok:
  "tents_ok w g \<Longrightarrow> \<forall>t\<in>set ts. tup_entry_add w (tupid t) = Some t \<Longrightarrow>
   tents_ok w (foldl (graph_cb w opt) g ts)"
  by (induction ts arbitrary: g) (simp_all add: graph_cb_tents_ok)

text \<open>
  The edges of style group from the node \<^verbatim>\<open>cur\<close> to a set of ids.
\<close>

definition group_edges :: "tupid_t option \<Rightarrow> tupid_t set \<Rightarrow> (tupid_t \<times> tupid_t \<times> link_style) set" where
  "group_edges c K = (case c of None \<Rightarrow> {} | Some a \<Rightarrow> (\<lambda>k. (a, k, TUP_LINK_GROUP)) ` K)"

lemma foldl_group_cb:
  "cur (foldl build_graph_group_cb g ts) = cur g \<and>
   nodes_of (foldl build_graph_group_cb g ts) = nodes_of g \<union> tupid ` set ts \<and>
   expanded_of (foldl build_graph_group_cb g ts) = expanded_of g \<and>
   plist (foldl build_graph_group_cb g ts) = plist g \<and>
   set (edges (foldl build_graph_group_cb g ts)) = set (edges g) \<union> group_edges (cur g) (tupid ` set ts)"
proof (induction ts arbitrary: g)
  case Nil
  then show ?case by (simp add: group_edges_def split: option.splits)
next
  case (Cons t ts)
  note e = group_cb_effect [of g t]
  note i = Cons.IH [of "build_graph_group_cb g t"]
  show ?case
    using i by (auto simp: e group_edges_def split: option.splits)
qed

lemma foldl_group_cb_tents_ok:
  "tents_ok w g \<Longrightarrow> \<forall>t\<in>set ts. tup_entry_add w (tupid t) = Some t \<Longrightarrow>
   tents_ok w (foldl build_graph_group_cb g ts)"
  by (induction ts arbitrary: g) (simp_all add: group_cb_tents_ok)

text \<open>
  No two rows of the node table have the same id. \<open>link_succ\<close> are the targets of the
  links of a node that \<^verbatim>\<open>graph_cb\<close> keeps (it is called with \<^verbatim>\<open>cur\<close> set), \<open>dir_succ\<close> the
  entries of the directory that it keeps (it is called with \<^verbatim>\<open>cur\<close> null).
\<close>

definition unique_ids :: "world \<Rightarrow> bool" where
  "unique_ids w = distinct (map tupid (node_table w))"

definition link_succ :: "world \<Rightarrow> gopts \<Rightarrow> tupid_t \<Rightarrow> tupid_t set" where
  "link_succ w opt c =
     {b \<in> set (link_targets w c). \<exists>t. tup_entry_add w b = Some t \<and> \<not> skips_at w opt True t}"

definition dir_succ :: "world \<Rightarrow> gopts \<Rightarrow> tupid_t \<Rightarrow> tupid_t set" where
  "dir_succ w opt c = tupid ` {t \<in> set (dir_children w c). \<not> skips_at w opt False t}"

lemma those_rows:
  assumes "those (map (tup_entry_add w) ids) = Some ts"
  shows "set ts = {t. \<exists>b \<in> set ids. tup_entry_add w b = Some t}"
    and "\<forall>b \<in> set ids. tup_entry_add w b \<noteq> None"
    and "\<forall>t \<in> set ts. tup_entry_add w (tupid t) = Some t"
proof -
  from those_eq_Some [OF assms] have m: "map (tup_entry_add w) ids = map Some ts" .
  then have "set (map (tup_entry_add w) ids) = set (map Some ts)" by simp
  then have i: "tup_entry_add w ` set ids = Some ` set ts" by simp
  show a: "set ts = {t. \<exists>b \<in> set ids. tup_entry_add w b = Some t}"
  proof (intro set_eqI iffI)
    fix t assume "t \<in> set ts"
    then have "Some t \<in> tup_entry_add w ` set ids" using i by auto
    then show "t \<in> {t. \<exists>b \<in> set ids. tup_entry_add w b = Some t}" by auto
  next
    fix t assume "t \<in> {t. \<exists>b \<in> set ids. tup_entry_add w b = Some t}"
    then have "Some t \<in> Some ` set ts" using i by force
    then show "t \<in> set ts" by auto
  qed
  show "\<forall>b \<in> set ids. tup_entry_add w b \<noteq> None"
  proof
    fix b assume "b \<in> set ids"
    then have "tup_entry_add w b \<in> Some ` set ts" using i by auto
    then show "tup_entry_add w b \<noteq> None" by auto
  qed
  show "\<forall>t \<in> set ts. tup_entry_add w (tupid t) = Some t"
    using a tup_entry_add_in_table by force
qed

lemma kept_ids_rows:
  assumes "those (map (tup_entry_add w) ids) = Some ts"
  shows "kept_ids w opt b ts = {i \<in> set ids. \<exists>t. tup_entry_add w i = Some t \<and> \<not> skips_at w opt b t}"
  using those_rows(1) [OF assms] tup_entry_add_in_table
  by (force simp: kept_ids_def)

lemma rows_ids:
  assumes "those (map (tup_entry_add w) ids) = Some ts"
  shows "tupid ` set ts = set ids"
proof -
  have "i \<in> tupid ` set ts \<longleftrightarrow> i \<in> set ids" for i
    using those_rows(1,2) [OF assms] tup_entry_add_in_table by force
  then show ?thesis by blast
qed

lemma unique_ids_row:
  assumes "unique_ids w" and "t \<in> set (node_table w)"
  shows "tup_entry_add w (tupid t) = Some t"
proof -
  have "distinct (map tupid xs) \<Longrightarrow> t \<in> set xs \<Longrightarrow> find (\<lambda>x. tupid x = tupid t) xs = Some t" for xs
    by (induction xs) (auto simp: image_iff)
  with assms show ?thesis by (simp add: unique_ids_def tup_entry_add_def)
qed

lemma dir_children_rows:
  "unique_ids w \<Longrightarrow> \<forall>t \<in> set (dir_children w c). tup_entry_add w (tupid t) = Some t"
  by (simp add: dir_children_def unique_ids_row)

text \<open>What one turn of the loop does to the graph.\<close>

lemma graph_expand_effect:
  assumes ex: "graph_expand w opt g c = Some g'" and n: "find_node g c = Some n"
  defines "K1 \<equiv> link_succ w opt c"
    and "K2 \<equiv> (if name (tent n) \<noteq> TUP_CONFIG then dir_succ w opt c else {})"
    and "G \<equiv> (if type (tent n) = TUP_NODE_GROUP then set (group_producers w c) else {})"
  shows "expanded_of g' = expanded_of g \<union> K1 \<union> K2"
    and "nodes_of g' = nodes_of g \<union> K1 \<union> G \<union> K2"
    and "set (edges g') = set (edges g) \<union> normal_edges (Some c) K1 \<union> group_edges (Some c) G"
    and "distinct (plist g) \<and> set (plist g) \<subseteq> expanded_of g \<and> c \<in> set (plist g) \<longrightarrow>
           distinct (plist g') \<and> set (plist g') = (set (plist g) - {c}) \<union> ((K1 \<union> K2) - expanded_of g)"
    and "unique_ids w \<and> tents_ok w g \<longrightarrow> tents_ok w g'"
proof -
  let ?g0 = "g\<lparr>cur := Some c\<rparr>"
  have n0: "find_node ?g0 c = Some n" using n by (simp add: find_node_def)
  from ex n0 obtain g1 g2 where
    g1: "tup_db_select_node_by_link w (graph_cb w opt) ?g0 c = Some g1"
    and g2: "(if type (tent n) = TUP_NODE_GROUP
              then tup_db_select_node_by_distinct_group_link w build_graph_group_cb g1 c
              else Some g1) = Some g2"
    and g': "(if name (tent n) \<noteq> TUP_CONFIG
              then tup_db_select_node_dir w (graph_cb w opt)
                     (g2\<lparr>plist := node_remove_list (plist g2) c,
                         node_list := node_insert_head (node_list g2) c, cur := None\<rparr>) c
              else Some (g2\<lparr>plist := node_remove_list (plist g2) c,
                            node_list := node_insert_head (node_list g2) c\<rparr>)) = Some g'"
    by (auto simp: graph_expand_def Let_def split: option.splits if_splits)
  let ?g3 = "g2\<lparr>plist := node_remove_list (plist g2) c, node_list := node_insert_head (node_list g2) c\<rparr>"
  from g1 obtain ts1 where ts1: "those (map (tup_entry_add w) (link_targets w c)) = Some ts1"
    and g1_eq: "g1 = foldl (graph_cb w opt) ?g0 ts1"
    by (auto simp: tup_db_select_node_by_link_def run_rows_def split: if_splits option.splits)
  have k1: "kept_ids w opt (cur_set ?g0) ts1 = K1"
    using kept_ids_rows [OF ts1, of opt True] by (simp add: K1_def link_succ_def cur_set_def)
  note f1 = foldl_graph_cb [of w opt ?g0 ts1, folded g1_eq, unfolded k1]
  have x0: "expanded_of ?g0 = expanded_of g" by (simp add: expanded_of_def)
  from f1 have c1: "cur g1 = Some c" and N1: "nodes_of g1 = nodes_of g \<union> K1"
    and X1: "expanded_of g1 = expanded_of g \<union> K1"
    and P1: "set (plist g1) = set (plist g) \<union> (K1 - expanded_of g)"
    and D1: "distinct (plist g) \<and> set (plist g) \<subseteq> expanded_of g \<longrightarrow> distinct (plist g1)"
    and E1: "set (edges g1) = set (edges g) \<union> normal_edges (Some c) K1"
    by (simp_all add: x0)
  have T1: "unique_ids w \<and> tents_ok w g \<longrightarrow> tents_ok w g1"
    using foldl_graph_cb_tents_ok [of w ?g0 ts1 opt] those_rows(3) [OF ts1] by (simp add: g1_eq)
  have all2: "cur g2 = Some c \<and> nodes_of g2 = nodes_of g1 \<union> G \<and> expanded_of g2 = expanded_of g1 \<and>
          plist g2 = plist g1 \<and> set (edges g2) = set (edges g1) \<union> group_edges (Some c) G \<and>
          (tents_ok w g1 \<longrightarrow> tents_ok w g2)"
    (is ?goal)
  proof (cases "type (tent n) = TUP_NODE_GROUP")
    case False
    with g2 c1 show ?goal by (simp add: G_def group_edges_def)
  next
    case True
    with g2 obtain ts2 where ts2: "those (map (tup_entry_add w) (group_producers w c)) = Some ts2"
      and g2_eq: "g2 = foldl build_graph_group_cb g1 ts2"
      by (auto simp: tup_db_select_node_by_distinct_group_link_def run_rows_def
          split: if_splits option.splits)
    from rows_ids [OF ts2] True have G: "tupid ` set ts2 = G" by (simp add: G_def)
    note f2 = foldl_group_cb [of g1 ts2, folded g2_eq, unfolded G]
    have "tents_ok w g1 \<longrightarrow> tents_ok w g2"
      using foldl_group_cb_tents_ok [of w g1 ts2] those_rows(3) [OF ts2] by (simp add: g2_eq)
    with f2 c1 show ?goal by simp
  qed
  from all2 have c2: "cur g2 = Some c" and N2: "nodes_of g2 = nodes_of g1 \<union> G"
    and X2: "expanded_of g2 = expanded_of g1" and P2: "plist g2 = plist g1"
    and E2: "set (edges g2) = set (edges g1) \<union> group_edges (Some c) G"
    and T2: "tents_ok w g1 \<longrightarrow> tents_ok w g2"
    by simp_all
  have X3: "expanded_of ?g3 = expanded_of g2" by (simp add: expanded_of_def)
  have P3: "distinct (plist g2) \<longrightarrow> distinct (plist ?g3) \<and> set (plist ?g3) = set (plist g2) - {c}"
    by (simp add: node_remove_list_def)
  have last: "expanded_of g' = expanded_of ?g3 \<union> K2 \<and> nodes_of g' = nodes_of ?g3 \<union> K2 \<and>
      set (edges g') = set (edges ?g3) \<and>
      (distinct (plist ?g3) \<and> set (plist ?g3) \<subseteq> expanded_of ?g3 \<longrightarrow>
         distinct (plist g') \<and> set (plist g') = set (plist ?g3) \<union> (K2 - expanded_of ?g3)) \<and>
      (unique_ids w \<and> tents_ok w ?g3 \<longrightarrow> tents_ok w g')"
    (is ?goal)
  proof (cases "name (tent n) \<noteq> TUP_CONFIG")
    case False
    with g' show ?goal by (auto simp: K2_def)
  next
    case True
    let ?g4 = "?g3\<lparr>cur := None\<rparr>"
    from True g' have g'_eq: "g' = foldl (graph_cb w opt) ?g4 (dir_children w c)"
      by (auto simp: tup_db_select_node_dir_def split: if_splits)
    have k2: "kept_ids w opt (cur_set ?g4) (dir_children w c) = K2"
      using True by (simp add: K2_def dir_succ_def kept_ids_def cur_set_def)
    note f4 = foldl_graph_cb [of w opt ?g4 "dir_children w c", folded g'_eq, unfolded k2]
    have x4: "expanded_of ?g4 = expanded_of ?g3" "nodes_of ?g4 = nodes_of ?g3"
      by (simp_all add: expanded_of_def)
    have "unique_ids w \<and> tents_ok w ?g3 \<longrightarrow> tents_ok w g'"
      using foldl_graph_cb_tents_ok [of w ?g4 "dir_children w c" opt] dir_children_rows [of w c]
      by (simp add: g'_eq)
    with f4 show ?goal by (simp add: x4 normal_edges_def)
  qed
  show "expanded_of g' = expanded_of g \<union> K1 \<union> K2"
    using last X3 X2 X1 by simp
  show "nodes_of g' = nodes_of g \<union> K1 \<union> G \<union> K2"
    using last N2 N1 by simp
  show "set (edges g') = set (edges g) \<union> normal_edges (Some c) K1 \<union> group_edges (Some c) G"
    using last E2 E1 by simp
  show "unique_ids w \<and> tents_ok w g \<longrightarrow> tents_ok w g'"
    using last T2 T1 by simp
  show "distinct (plist g) \<and> set (plist g) \<subseteq> expanded_of g \<and> c \<in> set (plist g) \<longrightarrow>
           distinct (plist g') \<and> set (plist g') = (set (plist g) - {c}) \<union> ((K1 \<union> K2) - expanded_of g)"
  proof
    assume a: "distinct (plist g) \<and> set (plist g) \<subseteq> expanded_of g \<and> c \<in> set (plist g)"
    with D1 P2 have d2: "distinct (plist g2)" by simp
    with P3 have d3: "distinct (plist ?g3)" and s3: "set (plist ?g3) = set (plist g2) - {c}" by simp_all
    have sub3: "set (plist ?g3) \<subseteq> expanded_of ?g3"
      using s3 P2 P1 X3 X2 X1 a by auto
    from last d3 sub3 have d': "distinct (plist g')"
      and s': "set (plist g') = set (plist ?g3) \<union> (K2 - expanded_of ?g3)" by simp_all
    have "set (plist g') = (set (plist g) - {c}) \<union> ((K1 \<union> K2) - expanded_of g)"
      using s' s3 P2 P1 X3 X2 X1 a by auto
    with d' show "distinct (plist g') \<and> set (plist g') = (set (plist g) - {c}) \<union> ((K1 \<union> K2) - expanded_of g)"
      by simp
  qed
qed

subsection \<open>What the loop leaves\<close>

text \<open>
  The closure that the loop computes, in terms of the store alone: a node fans out
  to the entries below it unless its name is \<^verbatim>\<open>tup.config\<close>; the successors of a node are
  the targets of its links and, if it fans out, the entries below it; \<open>reach\<close> is what
  can be reached from the seeds; a group brings in its producers as nodes, which are
  not expanded for that.
\<close>

definition fans_out :: "world \<Rightarrow> tupid_t \<Rightarrow> bool" where
  "fans_out w c = (\<exists>t. tup_entry_add w c = Some t \<and> name t \<noteq> TUP_CONFIG)"

definition group_nodes :: "world \<Rightarrow> tupid_t \<Rightarrow> tupid_t set" where
  "group_nodes w c =
     (if \<exists>t. tup_entry_add w c = Some t \<and> type t = TUP_NODE_GROUP then set (group_producers w c) else {})"

definition succs :: "world \<Rightarrow> gopts \<Rightarrow> tupid_t \<Rightarrow> tupid_t set" where
  "succs w opt c = link_succ w opt c \<union> (if fans_out w c then dir_succ w opt c else {})"

inductive_set reach :: "world \<Rightarrow> gopts \<Rightarrow> tupid_t set \<Rightarrow> tupid_t set"
  for w :: world and opt :: gopts and S :: "tupid_t set" where
    seed: "i \<in> S \<Longrightarrow> i \<in> reach w opt S"
  | step: "c \<in> reach w opt S \<Longrightarrow> j \<in> succs w opt c \<Longrightarrow> j \<in> reach w opt S"

definition out_edges :: "world \<Rightarrow> gopts \<Rightarrow> tupid_t \<Rightarrow> (tupid_t \<times> tupid_t \<times> link_style) set" where
  "out_edges w opt c =
     normal_edges (Some c) (link_succ w opt c) \<union> group_edges (Some c) (group_nodes w c)"

text \<open>
  The nodes that the loop has dealt with, and what holds between two turns of the
  loop that started from the seeds \<open>S\<close> and the edges \<open>E0\<close>.
\<close>

definition done_of :: "graph \<Rightarrow> tupid_t set" where
  "done_of g = expanded_of g - set (plist g)"

definition graph_inv ::
  "world \<Rightarrow> gopts \<Rightarrow> tupid_t set \<Rightarrow> (tupid_t \<times> tupid_t \<times> link_style) set \<Rightarrow> graph \<Rightarrow> bool" where
  "graph_inv w opt S E0 g =
     (tents_ok w g \<and> distinct (plist g) \<and> set (plist g) \<subseteq> expanded_of g \<and>
      S \<subseteq> expanded_of g \<and> expanded_of g \<subseteq> reach w opt S \<and>
      (\<forall>c \<in> done_of g. succs w opt c \<subseteq> expanded_of g) \<and>
      nodes_of g = expanded_of g \<union> (\<Union>c \<in> done_of g. group_nodes w c) \<and>
      set (edges g) = E0 \<union> (\<Union>c \<in> done_of g. out_edges w opt c))"

lemma expanded_find_node:
  assumes "c \<in> expanded_of g"
  obtains n where "find_node g c = Some n"
  using assms by (auto simp: expanded_of_def is_expanded_def split: option.splits)

lemma tents_ok_find_node:
  assumes "tents_ok w g" and "find_node g c = Some n"
  shows "tup_entry_add w c = Some (tent n)"
proof -
  from assms(2) have "(c, n) \<in> set (node_root g)"
    by (auto simp: find_node_def dest: map_of_SomeD)
  with assms(1) show ?thesis by (auto simp: tents_ok_def)
qed

lemma graph_inv_step:
  assumes u: "unique_ids w" and inv: "graph_inv w opt S E0 g"
    and p: "plist g = c # rest" and ex: "graph_expand w opt g c = Some g'"
  shows "graph_inv w opt S E0 g'"
proof -
  from inv have t: "tents_ok w g" and d: "distinct (plist g)" and sub: "set (plist g) \<subseteq> expanded_of g"
    and seeds: "S \<subseteq> expanded_of g" and r: "expanded_of g \<subseteq> reach w opt S"
    and cl: "\<forall>c \<in> done_of g. succs w opt c \<subseteq> expanded_of g"
    and nd: "nodes_of g = expanded_of g \<union> (\<Union>c \<in> done_of g. group_nodes w c)"
    and ed: "set (edges g) = E0 \<union> (\<Union>c \<in> done_of g. out_edges w opt c)"
    by (simp_all add: graph_inv_def)
  from p have cp: "c \<in> set (plist g)" by simp
  with sub have cx: "c \<in> expanded_of g" by auto
  then obtain n where n: "find_node g c = Some n" by (rule expanded_find_node)
  from tents_ok_find_node [OF t n] have row: "tup_entry_add w c = Some (tent n)" .
  have K2: "(if name (tent n) \<noteq> TUP_CONFIG then dir_succ w opt c else {}) =
            (if fans_out w c then dir_succ w opt c else {})"
    by (simp add: fans_out_def row)
  have G: "(if type (tent n) = TUP_NODE_GROUP then set (group_producers w c) else {}) = group_nodes w c"
    by (simp add: group_nodes_def row)
  note e = graph_expand_effect [OF ex n, unfolded K2 G]
  have X': "expanded_of g' = expanded_of g \<union> succs w opt c"
    using e(1) by (auto simp: succs_def)
  have N': "nodes_of g' = nodes_of g \<union> succs w opt c \<union> group_nodes w c"
    using e(2) by (auto simp: succs_def)
  have E': "set (edges g') = set (edges g) \<union> out_edges w opt c"
    using e(3) by (auto simp: out_edges_def)
  from e(4) d sub cp have D': "distinct (plist g')"
    and P': "set (plist g') = (set (plist g) - {c}) \<union> (succs w opt c - expanded_of g)"
    by (auto simp: succs_def)
  from e(5) u t have T': "tents_ok w g'" by simp
  have done': "done_of g' = insert c (done_of g)"
    using X' P' cx sub by (auto simp: done_of_def)
  from cx r have cr: "c \<in> reach w opt S" by auto
  have "expanded_of g' \<subseteq> reach w opt S"
    using X' r cr by (auto intro: reach.step)
  moreover have "\<forall>c \<in> done_of g'. succs w opt c \<subseteq> expanded_of g'"
    using done' cl X' by auto
  moreover have "nodes_of g' = expanded_of g' \<union> (\<Union>c \<in> done_of g'. group_nodes w c)"
    using N' nd X' done' by auto
  moreover have "set (edges g') = E0 \<union> (\<Union>c \<in> done_of g'. out_edges w opt c)"
    using E' ed done' by auto
  moreover have "set (plist g') \<subseteq> expanded_of g'"
    using P' X' sub by auto
  moreover have "S \<subseteq> expanded_of g'" using seeds X' by auto
  ultimately show ?thesis using T' D' by (simp add: graph_inv_def)
qed

lemma graph_loop_inv:
  "unique_ids w \<Longrightarrow> graph_inv w opt S E0 g \<Longrightarrow> graph_loop w opt g = Some g' \<Longrightarrow>
   graph_inv w opt S E0 g' \<and> plist g' = []"
proof (induction w opt g rule: graph_loop.induct)
  case (1 w opt g)
  show ?case
  proof (cases "plist g")
    case Nil
    with "1.prems" show ?thesis by simp
  next
    case (Cons c rest)
    with "1.prems"(3) obtain g1 where ex: "graph_expand w opt g c = Some g1"
      and rest: "graph_loop w opt g1 = Some g'"
      by (auto split: option.splits)
    from graph_inv_step [OF "1.prems"(1,2) Cons ex] have "graph_inv w opt S E0 g1" .
    from "1.IH" [OF Cons ex "1.prems"(1) this rest] show ?thesis .
  qed
qed

lemma reach_closed:
  assumes "S \<subseteq> X" and "\<forall>c \<in> X. succs w opt c \<subseteq> X"
  shows "reach w opt S \<subseteq> X"
proof
  fix i assume "i \<in> reach w opt S"
  then show "i \<in> X"
    using assms by (induction rule: reach.induct) auto
qed

text \<open>What the loop leaves, in terms of what the store holds.\<close>

lemma graph_loop_result:
  assumes "unique_ids w" and "graph_inv w opt S E0 g" and "graph_loop w opt g = Some g'"
  shows "plist g' = []"
    and "expanded_of g' = reach w opt S"
    and "nodes_of g' = reach w opt S \<union> (\<Union>c \<in> reach w opt S. group_nodes w c)"
    and "set (edges g') = E0 \<union> (\<Union>c \<in> reach w opt S. out_edges w opt c)"
    and "tents_ok w g'"
proof -
  from graph_loop_inv [OF assms] have inv: "graph_inv w opt S E0 g'" and p: "plist g' = []" by simp_all
  show "plist g' = []" by (rule p)
  from p have d: "done_of g' = expanded_of g'" by (simp add: done_of_def)
  from inv d have "reach w opt S \<subseteq> expanded_of g'"
    by (intro reach_closed) (simp_all add: graph_inv_def)
  with inv show x: "expanded_of g' = reach w opt S" by (auto simp: graph_inv_def)
  from inv d x show "nodes_of g' = reach w opt S \<union> (\<Union>c \<in> reach w opt S. group_nodes w c)"
    by (simp add: graph_inv_def)
  from inv d x show "set (edges g') = E0 \<union> (\<Union>c \<in> reach w opt S. out_edges w opt c)"
    by (simp add: graph_inv_def)
  from inv show "tents_ok w g'" by (simp add: graph_inv_def)
qed

subsection \<open>The arguments and the seeds\<close>

text \<open>
  The arguments of \<^verbatim>\<open>graph\<close>: those that the loop reads stand before the first
  \<^verbatim>\<open>--prune\<close>; among them, each one that is not an option is a target, and the ids of
  the targets are those of the entries that \<^verbatim>\<open>get_tent_dt\<close> finds for them.
  \<open>targets_in_store\<close> says that an entry found by \<^verbatim>\<open>get_tent_dt\<close> is the one the store has
  for its id, and \<open>all_pending\<close> that every node is marked and waits on \<open>plist\<close>.
\<close>

definition graph_options :: "string list" where
  "graph_options = [''--dirs'', ''--ghosts'', ''--env'', ''--combine'', ''--stickies'']"

definition graph_parsed :: "string list \<Rightarrow> string list" where
  "graph_parsed argv = takeWhile (\<lambda>a. a \<noteq> ''--prune'') argv"

definition graph_targets :: "string list \<Rightarrow> string list" where
  "graph_targets argv = filter (\<lambda>a. a \<notin> set graph_options) (graph_parsed argv)"

definition target_ids :: "world \<Rightarrow> string list \<Rightarrow> tupid_t set" where
  "target_ids w argv =
     {i. \<exists>a t. a \<in> set (graph_targets argv) \<and> get_tent_dt w (sub_dir_dt w) a = Some t \<and> tupid t = i}"

definition targets_in_store :: "world \<Rightarrow> bool" where
  "targets_in_store w = (\<forall>d a t. get_tent_dt w d a = Some t \<longrightarrow> tup_entry_add w (tupid t) = Some t)"

definition all_pending :: "graph \<Rightarrow> bool" where
  "all_pending g = (nodes_of g = set (plist g) \<and> expanded_of g = set (plist g) \<and> distinct (plist g))"

lemma seed_target_effect:
  assumes "all_pending g"
  shows "all_pending (seed_target g t)"
    and "set (plist (seed_target g t)) = insert (tupid t) (set (plist g))"
    and "edges (seed_target g t) = edges g" and "cur (seed_target g t) = cur g"
    and "tents_ok w g \<and> tup_entry_add w (tupid t) = Some t \<longrightarrow> tents_ok w (seed_target g t)"
proof -
  let ?g1 = "set_expanded (create_node g t) (tupid t)"
  let ?g2 = "?g1\<lparr>node_list := node_remove_list (node_list ?g1) (tupid t),
                  plist := node_insert_head (plist ?g1) (tupid t)\<rparr>"
  have x1: "expanded_of ?g1 = insert (tupid t) (expanded_of g)"
    by (auto simp: expanded_of_def is_expanded_set_expanded find_node_create_node_self)
  have p1: "plist ?g1 = plist g" "edges ?g1 = edges g" "cur ?g1 = cur g"
    by (simp_all add: set_expanded_def)
  have x2: "expanded_of ?g2 = insert (tupid t) (expanded_of g)"
    using x1 by (simp add: expanded_of_def)
  have all: "all_pending (seed_target g t) \<and>
      set (plist (seed_target g t)) = insert (tupid t) (set (plist g)) \<and>
      edges (seed_target g t) = edges g \<and> cur (seed_target g t) = cur g \<and>
      (tents_ok w g \<and> tup_entry_add w (tupid t) = Some t \<longrightarrow> tents_ok w (seed_target g t))"
  proof (cases "find_node g (tupid t)")
    case None
    then have s: "seed_target g t = ?g2" by (simp add: seed_target_def Let_def)
    from None have nin: "tupid t \<notin> nodes_of g" by (simp add: find_node_None_iff)
    have "all_pending (seed_target g t)"
      using assms nin x2 by (simp add: s all_pending_def p1 node_insert_head_def)
    moreover have "set (plist (seed_target g t)) = insert (tupid t) (set (plist g))"
      by (simp add: s p1 node_insert_head_def)
    moreover have "edges (seed_target g t) = edges g" "cur (seed_target g t) = cur g"
      by (simp_all add: s p1)
    moreover have "tents_ok w g \<and> tup_entry_add w (tupid t) = Some t \<longrightarrow> tents_ok w (seed_target g t)"
      by (simp add: s tents_ok_set_expanded tents_ok_create_node)
    ultimately show ?thesis by blast
  next
    case (Some n)
    then have s: "seed_target g t = g" by (simp add: seed_target_def)
    from Some have "tupid t \<in> nodes_of g" using find_node_None_iff [of g "tupid t"] by simp
    with assms have "tupid t \<in> set (plist g)" by (simp add: all_pending_def)
    then show ?thesis using assms by (auto simp: s)
  qed
  from all show "all_pending (seed_target g t)"
    "set (plist (seed_target g t)) = insert (tupid t) (set (plist g))"
    "edges (seed_target g t) = edges g" "cur (seed_target g t) = cur g"
    "tents_ok w g \<and> tup_entry_add w (tupid t) = Some t \<longrightarrow> tents_ok w (seed_target g t)"
    by blast+
qed

lemma graph_parsed_Cons:
  "graph_parsed (a # as) = (if a = ''--prune'' then [] else a # graph_parsed as)"
  by (simp add: graph_parsed_def)

lemma target_ids_option:
  "a \<in> set graph_options \<Longrightarrow> target_ids w (a # as) = target_ids w as"
  by (auto simp: target_ids_def graph_targets_def graph_parsed_Cons graph_options_def)

lemma graph_targets_option:
  "a \<in> set graph_options \<Longrightarrow> graph_targets (a # as) = graph_targets as"
  by (auto simp: graph_targets_def graph_parsed_Cons graph_options_def)

lemma graph_args_result:
  "graph_args w as x opt g = Inr (opt', g') \<Longrightarrow> all_pending g \<Longrightarrow>
   all_pending g' \<and> set (plist g') = set (plist g) \<union> target_ids w as \<and>
   edges g' = edges g \<and> cur g' = cur g \<and>
   (targets_in_store w \<and> tents_ok w g \<longrightarrow> tents_ok w g') \<and>
   default_graph opt' = (default_graph opt \<and> graph_targets as = []) \<and>
   stickies opt' = (stickies opt \<or> ''--stickies'' \<in> set (graph_parsed as)) \<and>
   show_dirs opt' = (show_dirs opt \<or> ''--dirs'' \<in> set (graph_parsed as)) \<and>
   show_ghosts opt' = (show_ghosts opt \<or> ''--ghosts'' \<in> set (graph_parsed as)) \<and>
   show_env opt' = (show_env opt \<or> ''--env'' \<in> set (graph_parsed as))"
proof (induction w as x opt g rule: graph_args.induct)
  case (1 w x opt g)
  then show ?case by (simp add: target_ids_def graph_targets_def graph_parsed_def)
next
  case (2 w a as x opt g)
  have T_opt: "a \<in> set graph_options \<Longrightarrow> a \<noteq> ''--prune'' \<Longrightarrow> target_ids w (a # as) = target_ids w as"
    by (auto simp: target_ids_def graph_targets_def graph_parsed_Cons)
  have G_opt: "a \<in> set graph_options \<Longrightarrow> a \<noteq> ''--prune'' \<Longrightarrow> graph_targets (a # as) = graph_targets as"
    by (auto simp: graph_targets_def graph_parsed_Cons)
  consider (dirs) "a = ''--dirs''" | (ghosts) "a = ''--ghosts''" | (env) "a = ''--env''"
    | (combine) "a = ''--combine''" | (stickies) "a = ''--stickies''" | (prune) "a = ''--prune''"
    | (target) "a \<notin> set graph_options" "a \<noteq> ''--prune''"
    by (auto simp: graph_options_def)
  then show ?case
  proof cases
    case dirs
    with "2.prems" have r: "graph_args w as (Suc x) (opt\<lparr>show_dirs := True\<rparr>) g = Inr (opt', g')" by simp
    from dirs have o: "a \<in> set graph_options" "a \<noteq> ''--prune''" by (simp_all add: graph_options_def)
    have P: "set (graph_parsed (a # as)) = insert a (set (graph_parsed as))"
      using o(2) by (simp add: graph_parsed_Cons)
    note ih = "2.IH"(1) [OF dirs r "2.prems"(2)]
    show ?thesis
      unfolding target_ids_option [OF o(1)] graph_targets_option [OF o(1)] P
      using ih dirs by simp
  next
    case ghosts
    with "2.prems" have r: "graph_args w as (Suc x) (opt\<lparr>show_ghosts := True\<rparr>) g = Inr (opt', g')" by simp
    from ghosts have o: "a \<in> set graph_options" "a \<noteq> ''--prune''" by (simp_all add: graph_options_def)
    from ghosts have n: "a \<noteq> ''--dirs''" by simp
    have P: "set (graph_parsed (a # as)) = insert a (set (graph_parsed as))"
      using o(2) by (simp add: graph_parsed_Cons)
    note ih = "2.IH"(2) [OF n ghosts r "2.prems"(2)]
    show ?thesis
      unfolding target_ids_option [OF o(1)] graph_targets_option [OF o(1)] P
      using ih ghosts by simp
  next
    case env
    with "2.prems" have r: "graph_args w as (Suc x) (opt\<lparr>show_env := True\<rparr>) g = Inr (opt', g')" by simp
    from env have o: "a \<in> set graph_options" "a \<noteq> ''--prune''" by (simp_all add: graph_options_def)
    from env have n: "a \<noteq> ''--dirs''" "a \<noteq> ''--ghosts''" by simp_all
    have P: "set (graph_parsed (a # as)) = insert a (set (graph_parsed as))"
      using o(2) by (simp add: graph_parsed_Cons)
    note ih = "2.IH"(3) [OF n env r "2.prems"(2)]
    show ?thesis
      unfolding target_ids_option [OF o(1)] graph_targets_option [OF o(1)] P
      using ih env by simp
  next
    case combine
    with "2.prems" have r: "graph_args w as (Suc x) (opt\<lparr>combine := True\<rparr>) g = Inr (opt', g')" by simp
    from combine have o: "a \<in> set graph_options" "a \<noteq> ''--prune''" by (simp_all add: graph_options_def)
    from combine have n: "a \<noteq> ''--dirs''" "a \<noteq> ''--ghosts''" "a \<noteq> ''--env''" by simp_all
    have P: "set (graph_parsed (a # as)) = insert a (set (graph_parsed as))"
      using o(2) by (simp add: graph_parsed_Cons)
    note ih = "2.IH"(4) [OF n combine r "2.prems"(2)]
    show ?thesis
      unfolding target_ids_option [OF o(1)] graph_targets_option [OF o(1)] P
      using ih combine by simp
  next
    case stickies
    with "2.prems" have r: "graph_args w as (Suc x) (opt\<lparr>stickies := True\<rparr>) g = Inr (opt', g')" by simp
    from stickies have o: "a \<in> set graph_options" "a \<noteq> ''--prune''" by (simp_all add: graph_options_def)
    from stickies have n: "a \<noteq> ''--dirs''" "a \<noteq> ''--ghosts''" "a \<noteq> ''--env''" "a \<noteq> ''--combine''" by simp_all
    have P: "set (graph_parsed (a # as)) = insert a (set (graph_parsed as))"
      using o(2) by (simp add: graph_parsed_Cons)
    note ih = "2.IH"(5) [OF n stickies r "2.prems"(2)]
    show ?thesis
      unfolding target_ids_option [OF o(1)] graph_targets_option [OF o(1)] P
      using ih stickies by simp
  next
    case prune
    with "2.prems" show ?thesis
      by (auto simp: target_ids_def graph_targets_def graph_parsed_Cons)
  next
    case target
    then have n: "a \<noteq> ''--dirs''" "a \<noteq> ''--ghosts''" "a \<noteq> ''--env''" "a \<noteq> ''--combine''"
      "a \<noteq> ''--stickies''" "a \<noteq> ''--prune''"
      by (auto simp: graph_options_def)
    with "2.prems" obtain t where t: "get_tent_dt w (sub_dir_dt w) a = Some t"
      and r: "graph_args w as (Suc x) (opt\<lparr>default_graph := False\<rparr>) (seed_target g t) = Inr (opt', g')"
      by (auto split: option.splits)
    note s = seed_target_effect [OF "2.prems"(2)]
    note ih = "2.IH"(6) [OF n t r s(1)]
    have T: "target_ids w (a # as) = insert (tupid t) (target_ids w as)"
      using target t by (auto simp: target_ids_def graph_targets_def graph_parsed_Cons)
    have G: "graph_targets (a # as) \<noteq> []"
      using target by (simp add: graph_targets_def graph_parsed_Cons)
    have P: "graph_parsed (a # as) = a # graph_parsed as" using n by (simp add: graph_parsed_Cons)
    have ts: "targets_in_store w \<Longrightarrow> tup_entry_add w (tupid t) = Some t"
      using t by (auto simp: targets_in_store_def)
    from s(5) [of w t] ts have tk: "targets_in_store w \<and> tents_ok w g \<longrightarrow> tents_ok w (seed_target g t)"
      by blast
    show ?thesis
      using ih tk n by (simp add: T G P s(2-4))
  qed
qed

text \<open>
  The seeds when no target is named: the ids of the create and modify flag tables
  whose entry \<^verbatim>\<open>graph_cb\<close> keeps.
\<close>

definition flagged_seeds :: "world \<Rightarrow> gopts \<Rightarrow> tupid_t set" where
  "flagged_seeds w opt =
     {i \<in> set (create_list w) \<union> set (modify_list w).
        \<exists>t. tup_entry_add w i = Some t \<and> \<not> skips_at w opt (graph_root w \<noteq> None) t}"

lemma create_graph_start:
  "all_pending (create_graph w)" "plist (create_graph w) = []" "edges (create_graph w) = []"
  "cur (create_graph w) = graph_root w" "tents_ok w (create_graph w)" "nodes_of (create_graph w) = {}"
  by (simp_all add: create_graph_def all_pending_def nodes_of_def expanded_of_def is_expanded_def
      find_node_def tents_ok_def)

lemma graph_args_start:
  assumes "graph_args w argv 0 (graph_opts0 w) (create_graph w) = Inr (opt, g)"
  shows "all_pending g" and "set (plist g) = target_ids w argv" and "edges g = []"
    and "cur g = graph_root w" and "targets_in_store w \<longrightarrow> tents_ok w g"
    and "default_graph opt = (graph_targets argv = [])"
    and "stickies opt = (''--stickies'' \<in> set (graph_parsed argv))"
    and "show_dirs opt = (option_flag w ''graph.dirs'' \<or> ''--dirs'' \<in> set (graph_parsed argv))"
    and "show_ghosts opt = (option_flag w ''graph.ghosts'' \<or> ''--ghosts'' \<in> set (graph_parsed argv))"
    and "show_env opt = (option_flag w ''graph.environment'' \<or> ''--env'' \<in> set (graph_parsed argv))"
  using graph_args_result [OF assms create_graph_start(1)]
  by (simp_all add: create_graph_start graph_opts0_def)

lemma default_seeds_effect:
  assumes s: "graph_default_seeds w opt g = Some g1" and d: "default_graph opt"
    and p: "all_pending g" and e: "plist g = []" and c: "cur g = graph_root w"
  shows "set (plist g1) = flagged_seeds w opt" and "all_pending g1"
    and "set (edges g1) = set (edges g) \<union> normal_edges (graph_root w) (flagged_seeds w opt)"
    and "cur g1 = graph_root w" and "tents_ok w g \<longrightarrow> tents_ok w g1"
proof -
  from p e have n0: "nodes_of g = {}" and x0: "expanded_of g = {}" by (simp_all add: all_pending_def)
  have b: "cur_set g = (graph_root w \<noteq> None)" by (simp add: cur_set_def c)
  from s d obtain ts1 ts2 where
    t1: "those (map (tup_entry_add w) (create_list w)) = Some ts1"
    and t2: "those (map (tup_entry_add w) (modify_list w)) = Some ts2"
    and g1: "g1 = foldl (graph_cb w opt) (foldl (graph_cb w opt) g ts1) ts2"
    by (auto simp: graph_default_seeds_def tup_db_select_node_by_flags_def run_rows_def
        split: if_splits option.splits)
  let ?m = "foldl (graph_cb w opt) g ts1"
  let ?K1 = "kept_ids w opt (graph_root w \<noteq> None) ts1"
  let ?K2 = "kept_ids w opt (graph_root w \<noteq> None) ts2"
  note f1 = foldl_graph_cb [of w opt g ts1, unfolded b n0 x0 c e]
  from f1 have cm: "cur ?m = graph_root w" by simp
  then have bm: "cur_set ?m = (graph_root w \<noteq> None)" by (simp add: cur_set_def)
  note f2 = foldl_graph_cb [of w opt ?m ts2, folded g1, unfolded bm cm]
  have K: "?K1 \<union> ?K2 = flagged_seeds w opt"
    unfolding kept_ids_rows [OF t1] kept_ids_rows [OF t2] flagged_seeds_def by blast
  from f1 have m: "nodes_of ?m = ?K1" "expanded_of ?m = ?K1" "set (plist ?m) = ?K1"
    "distinct (plist ?m)" "set (edges ?m) = set (edges g) \<union> normal_edges (graph_root w) ?K1"
    by simp_all
  from f2 m have r: "nodes_of g1 = ?K1 \<union> ?K2" "expanded_of g1 = ?K1 \<union> ?K2"
    "set (plist g1) = ?K1 \<union> ?K2" "distinct (plist g1)"
    "set (edges g1) = set (edges g) \<union> normal_edges (graph_root w) ?K1 \<union> normal_edges (graph_root w) ?K2"
    by auto
  have E: "normal_edges a (A \<union> B) = normal_edges a A \<union> normal_edges a B" for a A B
    by (auto simp: normal_edges_def split: option.splits)
  from r K show "set (plist g1) = flagged_seeds w opt" by simp
  from r K show "all_pending g1" by (simp add: all_pending_def)
  from r K show "set (edges g1) = set (edges g) \<union> normal_edges (graph_root w) (flagged_seeds w opt)"
    by (simp add: E [symmetric] Un_assoc)
  from f2 show "cur g1 = graph_root w" by simp
  show "tents_ok w g \<longrightarrow> tents_ok w g1"
    unfolding g1
    using foldl_graph_cb_tents_ok [of w g ts1 opt] foldl_graph_cb_tents_ok [of w ?m ts2 opt]
      those_rows(3) [OF t1] those_rows(3) [OF t2]
    by blast
qed

subsection \<open>The graph that is built\<close>

text \<open>
  Two stores with the same content: the same rows in each table, in any order, and
  the same answers to the other questions that \<^verbatim>\<open>graph\<close> asks.
\<close>

definition same_store :: "world \<Rightarrow> world \<Rightarrow> bool" where
  "same_store w w' =
     (set (node_table w) = set (node_table w') \<and> set (link_table w) = set (link_table w') \<and>
      set (create_list w) = set (create_list w') \<and> set (modify_list w) = set (modify_list w') \<and>
      env_dt w = env_dt w' \<and> option_flag w = option_flag w' \<and> sub_dir_dt w = sub_dir_dt w' \<and>
      get_tent_dt w = get_tent_dt w' \<and> graph_root w = graph_root w' \<and>
      by_link_sticky w = by_link_sticky w')"

text \<open>
  The seeds of a run, the edges from the node that \<^verbatim>\<open>create_graph\<close> leaves in \<^verbatim>\<open>cur\<close> to
  the seeds taken from the flag tables, and the edges that \<^verbatim>\<open>add_graph_stickies\<close> adds
  between the nodes \<open>N\<close>.
\<close>

definition seeds_of :: "world \<Rightarrow> gopts \<Rightarrow> string list \<Rightarrow> tupid_t set" where
  "seeds_of w opt argv = (if graph_targets argv = [] then flagged_seeds w opt else target_ids w argv)"

definition root_edges :: "world \<Rightarrow> gopts \<Rightarrow> string list \<Rightarrow> (tupid_t \<times> tupid_t \<times> link_style) set" where
  "root_edges w opt argv =
     (if graph_targets argv = [] then normal_edges (graph_root w) (flagged_seeds w opt) else {})"

definition sticky_set :: "world \<Rightarrow> tupid_t set \<Rightarrow> (tupid_t \<times> tupid_t \<times> link_style) set" where
  "sticky_set w N =
     {(a, b, TUP_LINK_STICKY) | a b. (a, b, TUP_LINK_STICKY) \<in> set (link_table w) \<and> a \<in> N \<and> b \<in> N \<and>
        (a, b, TUP_LINK_NORMAL) \<notin> set (link_table w)}"

lemma start_inv:
  assumes a: "graph_args w argv 0 (graph_opts0 w) (create_graph w) = Inr (opt, g)"
    and s: "graph_default_seeds w opt g = Some g1" and t: "targets_in_store w"
  shows "graph_inv w opt (seeds_of w opt argv) (root_edges w opt argv) g1"
proof -
  note r = graph_args_start [OF a]
  have p: "all_pending g1 \<and> set (plist g1) = seeds_of w opt argv \<and>
           set (edges g1) = root_edges w opt argv \<and> tents_ok w g1"
  proof (cases "graph_targets argv = []")
    case True
    with r(6) have d: "default_graph opt" by simp
    from True r(2) have e: "plist g = []" by (simp add: target_ids_def)
    note f = default_seeds_effect [OF s d r(1) e r(4)]
    from f r(3,5) t True show ?thesis by (simp add: seeds_of_def root_edges_def)
  next
    case False
    with r(6) s have "g1 = g" by (simp add: graph_default_seeds_def)
    with r(1,2,3,5) t False show ?thesis by (simp add: seeds_of_def root_edges_def)
  qed
  then have d: "done_of g1 = {}" by (simp add: done_of_def all_pending_def)
  from p have "expanded_of g1 \<subseteq> reach w opt (seeds_of w opt argv)"
    by (auto simp: all_pending_def intro: reach.seed)
  with p d show ?thesis by (simp add: graph_inv_def all_pending_def)
qed

lemma sticky_only_links_mem:
  "(a, b) \<in> set (sticky_only_links w g) \<longleftrightarrow>
     (a, b, TUP_LINK_STICKY) \<in> set (link_table w) \<and> a \<in> nodes_of g \<and> b \<in> nodes_of g \<and>
     (a, b, TUP_LINK_NORMAL) \<notin> set (link_table w)"
  by (auto simp: sticky_only_links_def find_node_None_iff)

lemma sticky_only_links_set:
  "(\<lambda>(a, b). (a, b, TUP_LINK_STICKY)) ` set (sticky_only_links w g) = sticky_set w (nodes_of g)"
proof (intro set_eqI iffI)
  fix e assume "e \<in> (\<lambda>(a, b). (a, b, TUP_LINK_STICKY)) ` set (sticky_only_links w g)"
  then obtain a b where "(a, b) \<in> set (sticky_only_links w g)" and "e = (a, b, TUP_LINK_STICKY)"
    by auto
  then show "e \<in> sticky_set w (nodes_of g)"
    by (simp add: sticky_only_links_mem sticky_set_def)
next
  fix e assume "e \<in> sticky_set w (nodes_of g)"
  then obtain a b where e: "e = (a, b, TUP_LINK_STICKY)" and "(a, b) \<in> set (sticky_only_links w g)"
    by (auto simp: sticky_only_links_mem sticky_set_def)
  then have "(\<lambda>(a, b). (a, b, TUP_LINK_STICKY)) (a, b) \<in> (\<lambda>(a, b). (a, b, TUP_LINK_STICKY)) ` set (sticky_only_links w g)"
    by (intro imageI)
  with e show "e \<in> (\<lambda>(a, b). (a, b, TUP_LINK_STICKY)) ` set (sticky_only_links w g)" by simp
qed

lemma graph_build_result:
  assumes a: "graph_args w argv 0 (graph_opts0 w) (create_graph w) = Inr (opt, g)"
    and b: "graph_build w opt g = Some g'" and u: "unique_ids w" and t: "targets_in_store w"
  defines "R \<equiv> reach w opt (seeds_of w opt argv)"
  defines "N \<equiv> R \<union> (\<Union>c \<in> R. group_nodes w c)"
  shows "nodes_of g' = N"
    and "set (edges g') = root_edges w opt argv \<union> (\<Union>c \<in> R. out_edges w opt c) \<union>
           (if ''--stickies'' \<in> set (graph_parsed argv) then sticky_set w N else {})"
    and "tents_ok w g'"
proof -
  from b obtain g1 g2 where
    g1: "graph_default_seeds w opt g = Some g1" and g2: "graph_loop w opt g1 = Some g2"
    and g': "(if stickies opt then add_graph_stickies w g2 else Some g2) = Some g'"
    by (auto simp: graph_build_def split: option.splits)
  note l = graph_loop_result [OF u start_inv [OF a g1 t] g2, folded R_def, folded N_def]
  note r = graph_args_start(7) [OF a]
  have k: "nodes_of g' = nodes_of g2 \<and> tents_ok w g' = tents_ok w g2 \<and>
           set (edges g') = set (edges g2) \<union>
             (if stickies opt then sticky_set w (nodes_of g2) else {})"
  proof (cases "stickies opt")
    case False
    with g' show ?thesis by simp
  next
    case True
    with g' have "g' = g2\<lparr>edges := edges g2 @ map (\<lambda>(a, b). (a, b, TUP_LINK_STICKY)) (sticky_only_links w g2)\<rparr>"
      by (auto simp: add_graph_stickies_def split: if_splits)
    with True sticky_only_links_set [of w g2] show ?thesis by simp
  qed
  from k l(3) show "nodes_of g' = N" by simp
  from k l(3,4) r show "set (edges g') = root_edges w opt argv \<union> (\<Union>c \<in> R. out_edges w opt c) \<union>
           (if ''--stickies'' \<in> set (graph_parsed argv) then sticky_set w N else {})"
    by simp
  from k l(5) show "tents_ok w g'" by simp
qed

lemma graph_V_tents:
  assumes "tents_ok w g"
  shows "graph_V g = {t. \<exists>i \<in> nodes_of g. tup_entry_add w i = Some t}"
proof (intro set_eqI iffI)
  fix t assume "t \<in> graph_V g"
  then obtain k n where kn: "(k, n) \<in> set (node_root g)" and t: "t = tent n"
    by (auto simp: graph_V_def)
  with assms have "tup_entry_add w k = Some t" by (auto simp: tents_ok_def)
  moreover from kn have "k \<in> nodes_of g" by (force simp: nodes_of_def)
  ultimately show "t \<in> {t. \<exists>i \<in> nodes_of g. tup_entry_add w i = Some t}" by blast
next
  fix t assume "t \<in> {t. \<exists>i \<in> nodes_of g. tup_entry_add w i = Some t}"
  then obtain i where i: "i \<in> nodes_of g" and e: "tup_entry_add w i = Some t" by blast
  from i obtain n where kn: "(i, n) \<in> set (node_root g)" by (auto simp: nodes_of_def)
  with assms e have "t = tent n" by (auto simp: tents_ok_def)
  with kn show "t \<in> graph_V g" by (force simp: graph_V_def)
qed

lemma graph_args_same:
  assumes "sub_dir_dt w = sub_dir_dt w'" and "get_tent_dt w = get_tent_dt w'"
  shows "graph_args w as x opt g = graph_args w' as x opt g"
  using assms by (induction w as x opt g rule: graph_args.induct) (simp_all split: option.splits)

lemma tup_entry_add_same:
  assumes "unique_ids w" "unique_ids w'" "set (node_table w) = set (node_table w')"
  shows "tup_entry_add w i = tup_entry_add w' i"
proof (cases "tup_entry_add w i")
  case None
  then have "\<forall>t \<in> set (node_table w). tupid t \<noteq> i"
    by (auto simp: tup_entry_add_def find_None_iff)
  with assms(3) have "tup_entry_add w' i = None"
    by (auto simp: tup_entry_add_def find_None_iff)
  with None show ?thesis by simp
next
  case (Some t)
  from tup_entry_add_in_table [OF Some] have "t \<in> set (node_table w)" "tupid t = i" by simp_all
  with assms(3) unique_ids_row [OF assms(2), of t] have "tup_entry_add w' i = Some t" by simp
  with Some show ?thesis by simp
qed

subsection \<open>Seeds, fan-out, groups and sticky edges\<close>

text \<open>
  The edges of style sticky of a graph.
\<close>

definition sticky_edges :: "graph \<Rightarrow> (tupid_t \<times> tupid_t \<times> link_style) set" where
  "sticky_edges g = {e \<in> set (edges g). snd (snd e) = TUP_LINK_STICKY}"

lemma graph_expand_node:
  assumes "graph_expand w opt g c = Some g'"
  obtains n where "find_node g c = Some n"
  using assms by (auto simp: graph_expand_def Let_def find_node_def split: option.splits)

lemma sticky_edges_expand:
  assumes "graph_expand w opt g c = Some g'"
  shows "sticky_edges g' = sticky_edges g"
proof -
  from assms obtain n where n: "find_node g c = Some n" by (rule graph_expand_node)
  from graph_expand_effect(3) [OF assms n] show ?thesis
    by (auto simp: sticky_edges_def normal_edges_def group_edges_def split: if_splits)
qed

lemma graph_loop_drained:
  "graph_loop w opt g = Some g' \<Longrightarrow> plist g' = [] \<and> sticky_edges g' = sticky_edges g"
proof (induction w opt g rule: graph_loop.induct)
  case (1 w opt g)
  show ?case
  proof (cases "plist g")
    case Nil
    with "1.prems" show ?thesis by simp
  next
    case (Cons c rest)
    with "1.prems" obtain g1 where ex: "graph_expand w opt g c = Some g1"
      and rest: "graph_loop w opt g1 = Some g'"
      by (auto split: option.splits)
    from "1.IH" [OF Cons ex rest] sticky_edges_expand [OF ex] show ?thesis by simp
  qed
qed

lemma sticky_edges_seeds:
  assumes "graph_default_seeds w opt g = Some g1"
  shows "sticky_edges g1 = sticky_edges g"
proof (cases "default_graph opt")
  case False
  with assms show ?thesis by (simp add: graph_default_seeds_def)
next
  case True
  with assms obtain ts1 ts2 where
    g1: "g1 = foldl (graph_cb w opt) (foldl (graph_cb w opt) g ts1) ts2"
    by (auto simp: graph_default_seeds_def tup_db_select_node_by_flags_def run_rows_def
        split: if_splits option.splits)
  let ?m = "foldl (graph_cb w opt) g ts1"
  from foldl_graph_cb [of w opt g ts1] have "sticky_edges ?m = sticky_edges g"
    by (auto simp: sticky_edges_def normal_edges_def split: option.splits)
  moreover from foldl_graph_cb [of w opt ?m ts2] have "sticky_edges g1 = sticky_edges ?m"
    unfolding g1 by (auto simp: sticky_edges_def normal_edges_def split: option.splits)
  ultimately show ?thesis by simp
qed

text \<open>
  C6. The local \<^verbatim>\<open>stickies\<close> is set exactly when \<^verbatim>\<open>--stickies\<close> stands among the arguments
  that the loop reads. Without it, the graph that \<^verbatim>\<open>graph\<close> builds has no edge of style
  sticky. With it, the graph is what \<^verbatim>\<open>add_graph_stickies\<close> makes of the graph that the
  expansion loop left: that graph has an empty \<open>plist\<close> and no edge of style sticky, and
  the new edges are put after its edges.
\<close>

theorem sticky_edges_only_with_option:
  assumes "graph_args w argv 0 (graph_opts0 w) (create_graph w) = Inr (opt, g)"
    and "graph_build w opt g = Some g'"
  shows "(''--stickies'' \<notin> set (graph_parsed argv) \<longrightarrow> sticky_edges g' = {})
    \<and> (''--stickies'' \<in> set (graph_parsed argv) \<longrightarrow>
         (\<exists>g1 g2. graph_default_seeds w opt g = Some g1 \<and> graph_loop w opt g1 = Some g2 \<and>
            plist g2 = [] \<and> sticky_edges g2 = {} \<and> add_graph_stickies w g2 = Some g' \<and>
            edges g' = edges g2 @ map (\<lambda>(a, b). (a, b, TUP_LINK_STICKY)) (sticky_only_links w g2)))"
proof -
  note a = graph_args_start [OF assms(1)]
  from a(3) have s0: "sticky_edges g = {}" by (simp add: sticky_edges_def)
  from assms(2) obtain g1 g2 where
    g1: "graph_default_seeds w opt g = Some g1" and g2: "graph_loop w opt g1 = Some g2"
    and g': "(if stickies opt then add_graph_stickies w g2 else Some g2) = Some g'"
    by (auto simp: graph_build_def split: option.splits)
  from graph_loop_drained [OF g2] sticky_edges_seeds [OF g1] s0
  have p2: "plist g2 = []" and s2: "sticky_edges g2 = {}" by simp_all
  show ?thesis
  proof (intro conjI impI)
    assume "''--stickies'' \<notin> set (graph_parsed argv)"
    with a(7) g' have "g' = g2" by simp
    with s2 show "sticky_edges g' = {}" by simp
  next
    assume "''--stickies'' \<in> set (graph_parsed argv)"
    with a(7) g' have ad: "add_graph_stickies w g2 = Some g'" by simp
    then have "edges g' = edges g2 @ map (\<lambda>(a, b). (a, b, TUP_LINK_STICKY)) (sticky_only_links w g2)"
      by (auto simp: add_graph_stickies_def split: if_splits)
    with g1 g2 p2 s2 ad
    show "\<exists>g1 g2. graph_default_seeds w opt g = Some g1 \<and> graph_loop w opt g1 = Some g2 \<and>
            plist g2 = [] \<and> sticky_edges g2 = {} \<and> add_graph_stickies w g2 = Some g' \<and>
            edges g' = edges g2 @ map (\<lambda>(a, b). (a, b, TUP_LINK_STICKY)) (sticky_only_links w g2)"
      by blast
  qed
qed

text \<open>
  C3, as amended. When no target is named, the seeds with which the expansion loop
  starts are the ids of the create and modify flag tables whose entry is not left out
  by \<^verbatim>\<open>graph_cb\<close>: a ghost unless ghosts are shown, an entry of the environment unless
  the environment is shown, and, when \<^verbatim>\<open>create_graph\<close> leaves a node in \<^verbatim>\<open>cur\<close>, a
  directory unless directories are shown. When targets are named, the seeds are the
  ids of the targets.
\<close>

theorem graph_seeds:
  assumes "graph_args w argv 0 (graph_opts0 w) (create_graph w) = Inr (opt, g)"
    and "graph_default_seeds w opt g = Some g1"
  shows "(graph_targets argv = [] \<longrightarrow>
            set (plist g1) = flagged_seeds w opt \<and> nodes_of g1 = flagged_seeds w opt)
    \<and> (graph_targets argv \<noteq> [] \<longrightarrow>
            set (plist g1) = target_ids w argv \<and> nodes_of g1 = target_ids w argv)
    \<and> show_ghosts opt = (option_flag w ''graph.ghosts'' \<or> ''--ghosts'' \<in> set (graph_parsed argv))
    \<and> show_env opt = (option_flag w ''graph.environment'' \<or> ''--env'' \<in> set (graph_parsed argv))
    \<and> show_dirs opt = (option_flag w ''graph.dirs'' \<or> ''--dirs'' \<in> set (graph_parsed argv))"
proof -
  note a = graph_args_start [OF assms(1)]
  have t: "graph_targets argv = [] \<Longrightarrow> plist g = []"
    using a(2) by (simp add: target_ids_def)
  have 1: "graph_targets argv = [] \<longrightarrow>
            set (plist g1) = flagged_seeds w opt \<and> nodes_of g1 = flagged_seeds w opt"
  proof
    assume n: "graph_targets argv = []"
    with a(6) have d: "default_graph opt" by simp
    note e = default_seeds_effect [OF assms(2) d a(1) t [OF n] a(4)]
    from e(1,2) show "set (plist g1) = flagged_seeds w opt \<and> nodes_of g1 = flagged_seeds w opt"
      by (simp add: all_pending_def)
  qed
  have 2: "graph_targets argv \<noteq> [] \<longrightarrow>
            set (plist g1) = target_ids w argv \<and> nodes_of g1 = target_ids w argv"
  proof
    assume "graph_targets argv \<noteq> []"
    with a(6) assms(2) have "g1 = g" by (simp add: graph_default_seeds_def)
    with a(1,2) show "set (plist g1) = target_ids w argv \<and> nodes_of g1 = target_ids w argv"
      by (simp add: all_pending_def)
  qed
  from 1 2 a(8,9,10) show ?thesis by blast
qed


text \<open>
  C5. In a turn of the loop for the node \<open>c\<close>: when its type is group, then for each
  producer of the group, taken once, there is afterwards an edge of style group from
  \<open>c\<close> to the producer, which is a node; the edges of the graph are those it had, the
  edges to the targets of the links of \<open>c\<close> and these group edges. When its type is
  not group, no group edge is added.
\<close>

theorem group_node_gets_producer_edges:
  assumes "graph_expand w opt g c = Some g'" and "find_node g c = Some n"
  shows "(type (tent n) = TUP_NODE_GROUP \<longrightarrow>
            (\<forall>p \<in> set (group_producers w c). (c, p, TUP_LINK_GROUP) \<in> set (edges g') \<and> p \<in> nodes_of g') \<and>
            set (edges g') = set (edges g) \<union> normal_edges (Some c) (link_succ w opt c) \<union>
               group_edges (Some c) (set (group_producers w c)))
    \<and> (type (tent n) \<noteq> TUP_NODE_GROUP \<longrightarrow>
            set (edges g') = set (edges g) \<union> normal_edges (Some c) (link_succ w opt c))
    \<and> set (group_producers w c) = {a. (a, c, TUP_LINK_GROUP) \<in> set (link_table w)}
    \<and> distinct (group_producers w c)"
proof -
  note e = graph_expand_effect(2,3) [OF assms]
  have 1: "type (tent n) = TUP_NODE_GROUP \<longrightarrow>
            (\<forall>p \<in> set (group_producers w c). (c, p, TUP_LINK_GROUP) \<in> set (edges g') \<and> p \<in> nodes_of g') \<and>
            set (edges g') = set (edges g) \<union> normal_edges (Some c) (link_succ w opt c) \<union>
               group_edges (Some c) (set (group_producers w c))"
    using e by (auto simp: group_edges_def)
  have 2: "type (tent n) \<noteq> TUP_NODE_GROUP \<longrightarrow>
            set (edges g') = set (edges g) \<union> normal_edges (Some c) (link_succ w opt c)"
    using e by (auto simp: group_edges_def)
  have 3: "set (group_producers w c) = {a. (a, c, TUP_LINK_GROUP) \<in> set (link_table w)}"
    by (auto simp: group_producers_def)
  have 4: "distinct (group_producers w c)" by (simp add: group_producers_def)
  from 1 2 3 4 show ?thesis by blast
qed

subsection \<open>Independence of the order of the rows\<close>

lemma link_targets_mem:
  "b \<in> set (link_targets w c) \<longleftrightarrow>
     (c, b, TUP_LINK_NORMAL) \<in> set (link_table w) \<or>
     (by_link_sticky w \<and> (c, b, TUP_LINK_STICKY) \<in> set (link_table w))"
  by (auto simp: link_targets_def)

lemma reach_mono:
  assumes "\<And>c. succs w opt c \<subseteq> succs w' opt c"
  shows "reach w opt S \<subseteq> reach w' opt S"
proof
  fix i assume "i \<in> reach w opt S"
  then show "i \<in> reach w' opt S"
  proof (induction rule: reach.induct)
    case (seed i)
    then show ?case by (rule reach.seed)
  next
    case (step c j)
    from step.hyps(2) assms have "j \<in> succs w' opt c" by blast
    with step.IH show ?case by (rule reach.step)
  qed
qed

lemma same_store_facts:
  assumes s: "same_store w w'" and u: "unique_ids w" "unique_ids w'"
  shows "tup_entry_add w = tup_entry_add w'"
    and "skips_at w = skips_at w'"
    and "link_succ w = link_succ w'"
    and "dir_succ w = dir_succ w'"
    and "group_nodes w = group_nodes w'"
    and "succs w = succs w'"
    and "out_edges w = out_edges w'"
    and "flagged_seeds w = flagged_seeds w'"
    and "target_ids w = target_ids w'"
    and "sticky_set w = sticky_set w'"
proof -
  from s have nt: "set (node_table w) = set (node_table w')"
    and lt: "set (link_table w) = set (link_table w')"
    and fl: "set (create_list w) = set (create_list w')" "set (modify_list w) = set (modify_list w')"
    and ot: "env_dt w = env_dt w'" "sub_dir_dt w = sub_dir_dt w'" "get_tent_dt w = get_tent_dt w'"
      "graph_root w = graph_root w'" "by_link_sticky w = by_link_sticky w'"
    by (simp_all add: same_store_def)
  show ea: "tup_entry_add w = tup_entry_add w'"
    by (intro ext tup_entry_add_same u nt)
  show sk: "skips_at w = skips_at w'"
    by (intro ext) (simp add: skips_at_def ot)
  have ltg: "set (link_targets w c) = set (link_targets w' c)" for c
    by (intro set_eqI) (simp add: link_targets_mem lt ot)
  show ls: "link_succ w = link_succ w'"
    by (intro ext) (simp add: link_succ_def ltg ea sk)
  have dc: "set (dir_children w c) = set (dir_children w' c)" for c
    by (simp add: dir_children_def nt)
  show ds: "dir_succ w = dir_succ w'"
    by (intro ext) (simp add: dir_succ_def dc sk)
  have gp: "set (group_producers w c) = set (group_producers w' c)" for c
    using lt by (auto simp: group_producers_def)
  show gn: "group_nodes w = group_nodes w'"
    by (intro ext) (auto simp: group_nodes_def gp ea)
  have fo: "fans_out w = fans_out w'"
    by (intro ext) (simp add: fans_out_def ea)
  show "succs w = succs w'"
    by (intro ext) (simp add: succs_def ls ds fo)
  show "out_edges w = out_edges w'"
    by (intro ext) (simp add: out_edges_def ls gn)
  show "flagged_seeds w = flagged_seeds w'"
    by (intro ext) (simp add: flagged_seeds_def fl ea sk ot)
  show "target_ids w = target_ids w'"
    by (intro ext) (simp add: target_ids_def ot)
  show "sticky_set w = sticky_set w'"
    by (intro ext) (simp add: sticky_set_def lt)
qed

text \<open>
  C1. The graph that \<^verbatim>\<open>graph\<close> builds does not depend on the order in which the store
  yields its rows. For two stores with the same content, in which no two rows of the
  node table have the same id and the targets are known, and the same arguments: when
  both runs build a graph, the two graphs have the same vertices and the same edges,
  and so the same list of vertex ids in ascending order.
\<close>

theorem graph_construction_order_independent:
  assumes s: "same_store w w'" and u: "unique_ids w" "unique_ids w'" and t: "targets_in_store w"
    and a: "graph_args w argv 0 (graph_opts0 w) (create_graph w) = Inr (opt, g)"
    and b: "graph_build w opt g = Some g1"
    and a': "graph_args w' argv 0 (graph_opts0 w') (create_graph w') = Inr (opt', g')"
    and b': "graph_build w' opt' g' = Some g1'"
  shows "graph_V g1 = graph_V g1' \<and> graph_E g1 = graph_E g1' \<and>
         sorted_list_of_set (tupid ` graph_V g1) = sorted_list_of_set (tupid ` graph_V g1')"
proof -
  note f = same_store_facts [OF s u]
  from s have ot: "sub_dir_dt w = sub_dir_dt w'" "get_tent_dt w = get_tent_dt w'"
    "graph_root w = graph_root w'" "option_flag w = option_flag w'"
    by (simp_all add: same_store_def)
  have "graph_args w' argv 0 (graph_opts0 w') (create_graph w') =
        graph_args w argv 0 (graph_opts0 w) (create_graph w)"
    using graph_args_same [OF ot(1,2), of argv 0 "graph_opts0 w" "create_graph w"]
    by (simp add: graph_opts0_def create_graph_def ot)
  with a a' have o: "opt' = opt" by simp
  from t have t': "targets_in_store w'"
    by (simp add: targets_in_store_def f(1) ot(2))
  note r = graph_build_result [OF a b u(1) t]
  note r' = graph_build_result [OF a' b' u(2) t', unfolded o]
  have so: "seeds_of w' opt argv = seeds_of w opt argv"
    by (simp add: seeds_of_def f)
  have re: "root_edges w' opt argv = root_edges w opt argv"
    by (simp add: root_edges_def f ot)
  have rc: "reach w' opt S = reach w opt S" for S
    using reach_mono [of w opt w' S] reach_mono [of w' opt w S] by (simp add: f(6) subset_antisym)
  from r(1) r'(1) have n: "nodes_of g1' = nodes_of g1" by (simp add: so rc f)
  from r(2) r'(2) have e: "set (edges g1') = set (edges g1)" by (simp add: so re rc f)
  from graph_V_tents [OF r(3)] graph_V_tents [OF r'(3)] n have v: "graph_V g1 = graph_V g1'"
    by (simp add: f(1))
  from e have "graph_E g1 = graph_E g1'" by (simp add: graph_E_def)
  with v show ?thesis by simp
qed

subsection \<open>The sample project\<close>

text \<open>
  The sample project with a group that the command produces into, a sub-directory
  that holds a directory named \<^verbatim>\<open>tup.config\<close> with a file in it, a variable of the
  environment that is flagged, a sticky link that no normal link doubles, and names
  that \<^verbatim>\<open>get_tent_dt\<close> finds. \<open>shuffled_world\<close> is the same store with its rows in the
  opposite order.
\<close>

definition graph_world :: world where
  "graph_world =
     demo_world\<lparr>
       node_table :=
         [\<lparr>tupid = 1, dt = 0, name = ''.'', type = TUP_NODE_DIR\<rparr>,
          \<lparr>tupid = 2, dt = 1, name = ''a.c'', type = TUP_NODE_FILE\<rparr>,
          \<lparr>tupid = 3, dt = 1, name = ''cc a.c'', type = TUP_NODE_CMD\<rparr>,
          \<lparr>tupid = 4, dt = 1, name = ''a.h'', type = TUP_NODE_GHOST\<rparr>,
          \<lparr>tupid = 5, dt = 1, name = ''a.o'', type = TUP_NODE_GENERATED\<rparr>,
          \<lparr>tupid = 6, dt = 1, name = ''<objs>'', type = TUP_NODE_GROUP\<rparr>,
          \<lparr>tupid = 7, dt = 1, name = ''sub'', type = TUP_NODE_DIR\<rparr>,
          \<lparr>tupid = 8, dt = 7, name = ''tup.config'', type = TUP_NODE_DIR\<rparr>,
          \<lparr>tupid = 9, dt = 8, name = ''x.c'', type = TUP_NODE_FILE\<rparr>,
          \<lparr>tupid = 101, dt = 100, name = ''PATH'', type = TUP_NODE_VAR\<rparr>],
       link_table :=
         [(2, 3, TUP_LINK_NORMAL), (2, 3, TUP_LINK_STICKY), (4, 3, TUP_LINK_NORMAL),
          (3, 5, TUP_LINK_NORMAL), (3, 6, TUP_LINK_GROUP), (3, 6, TUP_LINK_GROUP),
          (5, 3, TUP_LINK_STICKY)],
       modify_list := [3, 5, 101],
       get_tent_dt := (\<lambda>d n.
          if n = ''a.c'' then Some \<lparr>tupid = 2, dt = 1, name = ''a.c'', type = TUP_NODE_FILE\<rparr>
          else if n = ''a.h'' then Some \<lparr>tupid = 4, dt = 1, name = ''a.h'', type = TUP_NODE_GHOST\<rparr>
          else if n = ''<objs>'' then Some \<lparr>tupid = 6, dt = 1, name = ''<objs>'', type = TUP_NODE_GROUP\<rparr>
          else if n = ''sub'' then Some \<lparr>tupid = 7, dt = 1, name = ''sub'', type = TUP_NODE_DIR\<rparr>
          else if n = ''sub/tup.config'' then Some \<lparr>tupid = 8, dt = 7, name = ''tup.config'', type = TUP_NODE_DIR\<rparr>
          else None)\<rparr>"

definition shuffled_world :: world where
  "shuffled_world =
     graph_world\<lparr>node_table := rev (node_table graph_world),
                  link_table := rev (link_table graph_world),
                  modify_list := rev (modify_list graph_world)\<rparr>"

lemmas graph_eval =
  graph_build_def graph_default_seeds_def tup_db_select_node_by_flags_def run_rows_def
  graph_expand_def tup_db_select_node_by_link_def tup_db_select_node_by_distinct_group_link_def
  tup_db_select_node_dir_def link_targets_def group_producers_def dir_children_def
  graph_cb_def graph_cb_skips_def build_graph_group_cb_def enqueue_def is_expanded_def
  find_node_def create_node_def set_expanded_def create_edge_def node_remove_list_def
  node_insert_head_def create_graph_def graph_opts0_def seed_target_def add_graph_stickies_def
  sticky_only_links_def tup_entry_add_def fails_def TUP_CONFIG_def Let_def graph_world_def
  shuffled_world_def demo_world_def

theorem graph_seeds_witness:
  "graph_targets [] = []
   \<and> map_option plist (graph_default_seeds graph_world (graph_opts0 graph_world) (create_graph graph_world))
       = Some [5, 3]
   \<and> flagged_seeds graph_world (graph_opts0 graph_world) = {3, 5}
   \<and> graph_targets [''a.c'', ''a.h''] \<noteq> []
   \<and> target_ids graph_world [''a.c'', ''a.h''] = {2, 4}"
proof -
  let ?o = "graph_opts0 graph_world" and ?g = "create_graph graph_world"
  have a: "graph_args graph_world [] 0 ?o ?g = Inr (?o, ?g)" by simp
  obtain g1 where d: "graph_default_seeds graph_world ?o ?g = Some g1" and p: "plist g1 = [5, 3]"
    by (simp add: graph_eval)
  have t: "graph_targets [] = []" by (simp add: graph_targets_def graph_parsed_def)
  from graph_seeds [OF a d] t p have f: "flagged_seeds graph_world ?o = {3, 5}" by auto
  obtain o2 g2 where a2: "graph_args graph_world [''a.c'', ''a.h''] 0 ?o ?g = Inr (o2, g2)"
    and d2: "graph_default_seeds graph_world o2 g2 = Some g2" and p2: "plist g2 = [4, 2]"
    by (simp add: graph_eval)
  have t2: "graph_targets [''a.c'', ''a.h''] \<noteq> []"
    by (simp add: graph_targets_def graph_parsed_def graph_options_def)
  from graph_seeds [OF a2 d2] t2 p2 have i: "target_ids graph_world [''a.c'', ''a.h''] = {2, 4}" by auto
  from d p have m: "map_option plist (graph_default_seeds graph_world ?o ?g) = Some [5, 3]" by simp
  show ?thesis by (intro conjI t m f t2 i)
qed

text \<open>
  C3 as stated fails: with no target, the variable \<^verbatim>\<open>PATH\<close> of the environment is in
  the modify flag table and is not a seed.
\<close>

theorem graph_seeds_counterexample:
  "graph_args graph_world [] 0 (graph_opts0 graph_world) (create_graph graph_world) =
     Inr (graph_opts0 graph_world, create_graph graph_world)
   \<and> map_option (\<lambda>g. set (plist g))
        (graph_default_seeds graph_world (graph_opts0 graph_world) (create_graph graph_world)) = Some {3, 5}
   \<and> set (create_list graph_world) \<union> set (modify_list graph_world) = {3, 5, 101}"
  by (simp add: graph_eval) auto

theorem sticky_edges_only_with_option_witness:
  "''--stickies'' \<notin> set (graph_parsed [])
   \<and> map_option edges (graph_build graph_world (graph_opts0 graph_world) (create_graph graph_world)) =
       Some [(3, 5, TUP_LINK_NORMAL)]
   \<and> map_option sticky_edges (graph_build graph_world (graph_opts0 graph_world) (create_graph graph_world)) =
       Some {}
   \<and> ''--stickies'' \<in> set (graph_parsed [''--stickies''])
   \<and> map_option edges (graph_build graph_world ((graph_opts0 graph_world)\<lparr>stickies := True\<rparr>)
        (create_graph graph_world)) = Some [(3, 5, TUP_LINK_NORMAL), (5, 3, TUP_LINK_STICKY)]"
proof -
  let ?o = "graph_opts0 graph_world" and ?g = "create_graph graph_world"
  have a: "graph_args graph_world [] 0 ?o ?g = Inr (?o, ?g)" by simp
  obtain g1 where b: "graph_build graph_world ?o ?g = Some g1" and e: "edges g1 = [(3, 5, TUP_LINK_NORMAL)]"
    by (simp add: graph_eval)
  have n: "''--stickies'' \<notin> set (graph_parsed [])" by (simp add: graph_parsed_def)
  from sticky_edges_only_with_option [OF a b] n have s: "sticky_edges g1 = {}" by simp
  have a2: "graph_args graph_world [''--stickies''] 0 ?o ?g = Inr (?o\<lparr>stickies := True\<rparr>, ?g)" by simp
  obtain g2 where b2: "graph_build graph_world (?o\<lparr>stickies := True\<rparr>) ?g = Some g2"
    and e2: "edges g2 = [(3, 5, TUP_LINK_NORMAL), (5, 3, TUP_LINK_STICKY)]"
    by (simp add: graph_eval)
  have y: "''--stickies'' \<in> set (graph_parsed [''--stickies''])" by (simp add: graph_parsed_def)
  from sticky_edges_only_with_option [OF a2 b2] y obtain h where "plist h = []" "sticky_edges h = {}"
    "add_graph_stickies graph_world h = Some g2" by blast
  from b e have m1: "map_option edges (graph_build graph_world ?o ?g) = Some [(3, 5, TUP_LINK_NORMAL)]"
    by simp
  from b s have m2: "map_option sticky_edges (graph_build graph_world ?o ?g) = Some {}" by simp
  from b2 e2 have m3: "map_option edges (graph_build graph_world (?o\<lparr>stickies := True\<rparr>) ?g) =
      Some [(3, 5, TUP_LINK_NORMAL), (5, 3, TUP_LINK_STICKY)]" by simp
  show ?thesis by (intro conjI n m1 m2 y m3)
qed

theorem group_node_gets_producer_edges_witness:
  "map_option edges
     (graph_expand graph_world ((graph_opts0 graph_world)\<lparr>default_graph := False\<rparr>)
        (seed_target (create_graph graph_world)
           \<lparr>tupid = 6, dt = 1, name = ''<objs>'', type = TUP_NODE_GROUP\<rparr>) 6) =
     Some [(6, 3, TUP_LINK_GROUP)]
   \<and> group_producers graph_world 6 = [3]
   \<and> (3, 6, TUP_LINK_GROUP) \<in> set (link_table graph_world)"
proof -
  let ?o = "(graph_opts0 graph_world)\<lparr>default_graph := False\<rparr>"
  let ?t = "\<lparr>tupid = 6, dt = 1, name = ''<objs>'', type = TUP_NODE_GROUP\<rparr>"
  let ?g = "seed_target (create_graph graph_world) ?t"
  obtain g1 where x: "graph_expand graph_world ?o ?g 6 = Some g1" and e: "edges g1 = [(6, 3, TUP_LINK_GROUP)]"
    by (simp add: graph_eval)
  have f: "find_node ?g 6 = Some \<lparr>tent = ?t, expanded = True\<rparr>" by (simp add: graph_eval)
  have p: "group_producers graph_world 6 = [3]" by (simp add: graph_eval)
  from group_node_gets_producer_edges [OF x f] p have l: "(3, 6, TUP_LINK_GROUP) \<in> set (link_table graph_world)" by auto
  from x e have m: "map_option edges (graph_expand graph_world ?o ?g 6) = Some [(6, 3, TUP_LINK_GROUP)]"
    by simp
  show ?thesis by (intro conjI m p l)
qed



theorem graph_construction_order_independent_witness:
  "same_store graph_world shuffled_world \<and> unique_ids graph_world \<and> unique_ids shuffled_world
   \<and> targets_in_store graph_world
   \<and> map_option (map fst \<circ> node_root)
        (graph_build graph_world (graph_opts0 graph_world) (create_graph graph_world)) = Some [3, 5]
   \<and> map_option (map fst \<circ> node_root)
        (graph_build shuffled_world (graph_opts0 shuffled_world) (create_graph shuffled_world)) = Some [5, 3]
   \<and> map_option graph_V (graph_build graph_world (graph_opts0 graph_world) (create_graph graph_world)) =
      map_option graph_V (graph_build shuffled_world (graph_opts0 shuffled_world) (create_graph shuffled_world))
   \<and> map_option graph_E (graph_build graph_world (graph_opts0 graph_world) (create_graph graph_world)) =
      map_option graph_E (graph_build shuffled_world (graph_opts0 shuffled_world) (create_graph shuffled_world))"
proof -
  let ?o = "graph_opts0 graph_world" and ?g = "create_graph graph_world"
  let ?o' = "graph_opts0 shuffled_world" and ?g' = "create_graph shuffled_world"
  have s: "same_store graph_world shuffled_world"
    by (simp add: same_store_def shuffled_world_def)
  have u: "unique_ids graph_world" "unique_ids shuffled_world"
    by (simp_all add: unique_ids_def shuffled_world_def graph_world_def)
  have t: "targets_in_store graph_world"
    by (simp add: targets_in_store_def graph_world_def tup_entry_add_def split: if_splits)
  have a: "graph_args graph_world [] 0 ?o ?g = Inr (?o, ?g)" by simp
  have a': "graph_args shuffled_world [] 0 ?o' ?g' = Inr (?o', ?g')" by simp
  obtain g1 where b: "graph_build graph_world ?o ?g = Some g1" and n: "map fst (node_root g1) = [3, 5]"
    by (simp add: graph_eval)
  obtain g1' where b': "graph_build shuffled_world ?o' ?g' = Some g1'" and n': "map fst (node_root g1') = [5, 3]"
    by (simp add: graph_eval)
  note r = graph_construction_order_independent [OF s u t a b a' b']
  from b n have m: "map_option (map fst \<circ> node_root) (graph_build graph_world ?o ?g) = Some [3, 5]" by simp
  from b' n' have m': "map_option (map fst \<circ> node_root) (graph_build shuffled_world ?o' ?g') = Some [5, 3]"
    by simp
  from r b b' have v: "map_option graph_V (graph_build graph_world ?o ?g) =
      map_option graph_V (graph_build shuffled_world ?o' ?g')" by simp
  from r b b' have e: "map_option graph_E (graph_build graph_world ?o ?g) =
      map_option graph_E (graph_build shuffled_world ?o' ?g')" by simp
  show ?thesis by (intro conjI s u t m m' v e)
qed

end
